theory Spec2Isabelle
  imports Main
begin

section \<open>The HTTP-to-stdio bridge of \<^verbatim>\<open>wrapper.js\<close>\<close>

text \<open>
  The class \<^verbatim>\<open>KiwiTcmsMCPWrapper\<close> keeps one worker child process, writes every
  request it receives to the worker's standard input, reads the worker's standard
  output line by line and settles the promise of the call whose identifier a line
  carries. Node runs every handler to completion before the next one starts, so each
  handler is a function from the wrapper's state to its next state.
\<close>

subsection \<open>JavaScript values\<close>

text \<open>
  Request bodies and parsed responses are JSON values. An array or an object is a
  reference: it carries the identity of the heap object next to its contents.
  Numbers are integers here (the identifiers of JSON-RPC and \<^verbatim>\<open>Date.now()\<close>);
  fractions and \<^verbatim>\<open>NaN\<close> are outside the model.
\<close>

datatype jsval =
    JUndefined
  | JNull
  | JBool bool
  | JNum int
  | JStr string
  | JArr nat "jsval list"
  | JObj nat "(string \<times> jsval) list"

datatype js_error = SyntaxError | TypeError | WriteError

text \<open>Truthiness, as \<^verbatim>\<open>||\<close> and \<^verbatim>\<open>!\<close> test it.\<close>

fun truthy :: "jsval \<Rightarrow> bool" where
  "truthy JUndefined = False"
| "truthy JNull = False"
| "truthy (JBool b) = b"
| "truthy (JNum n) = (n \<noteq> 0)"
| "truthy (JStr s) = (s \<noteq> [])"
| "truthy (JArr r xs) = True"
| "truthy (JObj r fs) = True"

text \<open>
  \<^verbatim>\<open>a === b\<close>: primitives are compared by type and value, arrays and objects
  by identity only.
\<close>

fun ident :: "jsval \<Rightarrow> jsval" where
  "ident (JArr r xs) = JArr r []"
| "ident (JObj r fs) = JObj r []"
| "ident v = v"

definition strict_eq :: "jsval \<Rightarrow> jsval \<Rightarrow> bool" where
  "strict_eq a b = (ident a = ident b)"

text \<open>
  \<^verbatim>\<open>v.id\<close>: a TypeError on \<^verbatim>\<open>undefined\<close> and \<^verbatim>\<open>null\<close>, the property of an
  object, \<^verbatim>\<open>undefined\<close> on everything else.
\<close>

fun prop_id :: "jsval \<Rightarrow> js_error + jsval" where
  "prop_id JUndefined = Inl TypeError"
| "prop_id JNull = Inl TypeError"
| "prop_id (JObj r fs) = Inr (case map_of fs ''id'' of None \<Rightarrow> JUndefined | Some v \<Rightarrow> v)"
| "prop_id v = Inr JUndefined"

subsection \<open>Strings\<close>

text \<open>
  A \<^typ>\<open>char\<close> stands for a UTF-16 code unit below 256. \<^verbatim>\<open>String.prototype.trim\<close>
  strips white space and line terminators from both ends; those below 256 are
  TAB, LF, VT, FF, CR, SPACE and NBSP.
\<close>

definition newline :: char where
  "newline = CHR 0x0A"

definition isWhiteSpace :: "char \<Rightarrow> bool" where
  "isWhiteSpace c =
     (c \<in> set [CHR 0x09, CHR 0x0A, CHR 0x0B, CHR 0x0C, CHR 0x0D, CHR 0x20, CHR 0xA0])"

definition trim :: "string \<Rightarrow> string" where
  "trim s = rev (dropWhile isWhiteSpace (rev (dropWhile isWhiteSpace s)))"

definition startsWith :: "string \<Rightarrow> string \<Rightarrow> bool" where
  "startsWith s p = (take (length p) s = p)"

text \<open>
  \<^verbatim>\<open>s.split(d)\<close> for a one-character separator: the pieces between the
  separators, never an empty array (\<^verbatim>\<open>''.split(d)\<close> is \<^verbatim>\<open>['']\<close>).
\<close>

fun split :: "char \<Rightarrow> string \<Rightarrow> string list" where
  "split d [] = [[]]"
| "split d (c # cs) =
     (if c = d then [] # split d cs
      else (c # hd (split d cs)) # tl (split d cs))"

text \<open>\<^verbatim>\<open>xs.findIndex(p)\<close>, with \<open>None\<close> for \<^verbatim>\<open>-1\<close>.\<close>

fun findIndex :: "('a \<Rightarrow> bool) \<Rightarrow> 'a list \<Rightarrow> nat option" where
  "findIndex p [] = None"
| "findIndex p (x # xs) =
     (if p x then Some 0 else map_option Suc (findIndex p xs))"

text \<open>\<^verbatim>\<open>xs.splice(i, 1)\<close>: the array without its element at index \<open>i\<close>.\<close>

definition spliceAt :: "nat \<Rightarrow> 'a list \<Rightarrow> 'a list" where
  "spliceAt i xs = take i xs @ drop (Suc i) xs"

subsection \<open>The wrapper's state\<close>

text \<open>
  Every \<^verbatim>\<open>forwardToMCP\<close> creates one promise; a \<open>call\<close> is the identity of that
  promise, and its \<^verbatim>\<open>resolve\<close> and \<^verbatim>\<open>reject\<close> functions are the two ways of
  settling it. A promise is settled once: \<^verbatim>\<open>resolve\<close> and \<^verbatim>\<open>reject\<close> on a
  settled promise do nothing.
\<close>

type_synonym call = nat

datatype failure =
    RequestTimeout      \<comment> \<open>\<^verbatim>\<open>new Error('Request timeout after 2 minutes')\<close>\<close>
  | Thrown js_error     \<comment> \<open>an exception caught and passed to \<^verbatim>\<open>reject\<close>\<close>

datatype outcome = Pending | Fulfilled jsval | Rejected failure

definition settle :: "call \<Rightarrow> outcome \<Rightarrow> (call \<Rightarrow> outcome) \<Rightarrow> (call \<Rightarrow> outcome)" where
  "settle c out ps = (case ps c of Pending \<Rightarrow> ps(c := out) | _ \<Rightarrow> ps)"

text \<open>
  The worker process: the environment it was spawned with and what has been written
  to its standard input. An entry \<open>v\<close> of \<open>stdin\<close> is the line
  \<^verbatim>\<open>JSON.stringify(v) + '\n'\<close>.
\<close>

record worker =
  env :: "string \<rightharpoonup> string"
  stdin :: "jsval list"

text \<open>The callbacks handed to \<^verbatim>\<open>setTimeout\<close>, each with what its closure captured.\<close>

datatype callback =
    ExpireCall jsval call   \<comment> \<open>lines 212-218: \<^verbatim>\<open>requestId\<close> and the call's \<^verbatim>\<open>reject\<close>\<close>
  | Restart                 \<comment> \<open>line 169: \<^verbatim>\<open>() => this.initializeMCP()\<close>\<close>
  | BecomeReady             \<comment> \<open>lines 178-187\<close>

datatype logline = ParseFailure string

record bridge =
  mcpProcess :: "worker option"
  isReady :: bool
  requestQueue :: "(jsval \<times> call) list"
  responseBuffer :: string
  promises :: "call \<Rightarrow> outcome"
  calls :: nat
  timers :: "(nat \<times> callback) list"
  console :: "logline list"

text \<open>
  An entry \<open>(i, c)\<close> of \<open>requestQueue\<close> is the object
  \<^verbatim>\<open>{ id: i, resolve, reject }\<close> of call \<open>c\<close>; \<open>calls\<close> counts the promises
  created so far; \<open>timers\<close> holds the pending timeouts with their delays in
  milliseconds; \<open>console\<close> keeps the diagnostics of \<^verbatim>\<open>handleMCPResponse\<close> (the other
  log lines of the file change nothing and are left out).
\<close>

definition constructed :: bridge where
  "constructed =
     \<lparr>mcpProcess = None, isReady = False, requestQueue = [], responseBuffer = [],
      promises = (\<lambda>c. Pending), calls = 0, timers = [], console = []\<rparr>"

subsection \<open>\<^verbatim>\<open>handleMCPResponse\<close>\<close>

definition looksLikeJSON :: "string \<Rightarrow> bool" where
  "looksLikeJSON s = (startsWith s ''{'' \<or> startsWith s ''['')"

definition matching :: "jsval \<Rightarrow> (jsval \<times> call) \<Rightarrow> bool" where
  "matching requestId req = strict_eq (fst req) requestId"

text \<open>
  The body of the \<^verbatim>\<open>try\<close> block, lines 224-239. \<open>parse\<close> is \<^verbatim>\<open>JSON.parse\<close>,
  with \<open>None\<close> where it throws a SyntaxError.
\<close>

definition tryResponse ::
  "(string \<Rightarrow> jsval option) \<Rightarrow> bridge \<Rightarrow> string \<Rightarrow> js_error + bridge" where
  "tryResponse parse st responseText =
     (let trimmed = trim responseText in
      if \<not> startsWith trimmed ''{'' \<and> \<not> startsWith trimmed ''['' then Inr st
      else case parse trimmed of
        None \<Rightarrow> Inl SyntaxError
      | Some response \<Rightarrow>
          (case prop_id response of
             Inl e \<Rightarrow> Inl e
           | Inr requestId \<Rightarrow>
               (case findIndex (matching requestId) (requestQueue st) of
                  None \<Rightarrow> Inr st
                | Some queueIndex \<Rightarrow>
                    (let request = requestQueue st ! queueIndex in
                     Inr (st\<lparr>requestQueue := spliceAt queueIndex (requestQueue st),
                             promises := settle (snd request) (Fulfilled response)
                                           (promises st)\<rparr>)))))"

text \<open>With the \<^verbatim>\<open>catch\<close> block, lines 240-247: the exception is logged and dropped.\<close>

definition handleMCPResponse ::
  "(string \<Rightarrow> jsval option) \<Rightarrow> bridge \<Rightarrow> string \<Rightarrow> bridge" where
  "handleMCPResponse parse st responseText =
     (case tryResponse parse st responseText of
        Inr st' \<Rightarrow> st'
      | Inl e \<Rightarrow>
          (if looksLikeJSON (trim responseText)
           then st\<lparr>console := console st @ [ParseFailure (take 200 responseText)]\<rparr>
           else st))"

subsection \<open>The \<^verbatim>\<open>data\<close> handler of the worker's standard output\<close>

text \<open>
  The handler is called with a \<^verbatim>\<open>Buffer\<close>, the bytes of one chunk of the worker's
  output (in a \<open>buffer\<close> a \<^typ>\<open>char\<close> is a byte). \<open>toString\<close> is
  \<^verbatim>\<open>Buffer.prototype.toString\<close>, the UTF-8 decoding of Node; the handler applies it
  to every chunk on its own (line 143), and nothing else in the file decodes the
  worker's output.
\<close>

type_synonym buffer = "char list"

text \<open>
  Lines 143-147: the text of the chunk is appended to the buffer, the buffer is split
  at the newlines, the last piece goes back into the buffer
  (\<^verbatim>\<open>lines.pop() || ''\<close>) and the pieces before it are the \<^verbatim>\<open>lines\<close> of this
  chunk.
\<close>

definition popOrEmpty :: "string list \<Rightarrow> string" where
  "popOrEmpty ls = (case rev ls of [] \<Rightarrow> [] | l # _ \<Rightarrow> (if l \<noteq> [] then l else []))"

definition frame :: "(buffer \<Rightarrow> string) \<Rightarrow> string \<Rightarrow> buffer \<Rightarrow> string \<times> string list" where
  "frame toString buf data =
     (let ls = split newline (buf @ toString data) in (popOrEmpty ls, butlast ls))"

text \<open>
  Lines 149-153: what \<^verbatim>\<open>handleMCPResponse\<close> is called with, in order: every line
  that is not blank, trimmed.
\<close>

definition delivered :: "string list \<Rightarrow> string list" where
  "delivered ls = map trim (filter (\<lambda>line. trim line \<noteq> []) ls)"

definition onStdoutData ::
  "(string \<Rightarrow> jsval option) \<Rightarrow> (buffer \<Rightarrow> string) \<Rightarrow> bridge \<Rightarrow> buffer \<Rightarrow> bridge" where
  "onStdoutData parse toString st data =
     (let (buf, ls) = frame toString (responseBuffer st) data in
      foldl (handleMCPResponse parse) (st\<lparr>responseBuffer := buf\<rparr>) (delivered ls))"


subsection \<open>\<^verbatim>\<open>forwardToMCP\<close>\<close>

definition timeout :: nat where
  "timeout = 120000"

text \<open>
  \<^verbatim>\<open>this.mcpProcess.stdin.write(JSON.stringify(request) + '\n')\<close>: a TypeError when
  there is no process; otherwise \<open>wr\<close> is the exception the stream's \<^verbatim>\<open>write\<close>
  throws, if it throws one.
\<close>

definition writeStdin :: "worker option \<Rightarrow> js_error option \<Rightarrow> jsval \<Rightarrow> js_error + worker" where
  "writeStdin proc wr v =
     (case proc of
        None \<Rightarrow> Inl TypeError
      | Some w \<Rightarrow> (case wr of Some e \<Rightarrow> Inl e | None \<Rightarrow> Inr (w\<lparr>stdin := stdin w @ [v]\<rparr>)))"

text \<open>
  Lines 195-220, called at time \<open>now\<close> (the value of \<^verbatim>\<open>Date.now()\<close>). The new
  promise is call \<open>calls st\<close> and starts pending. An exception of the executor
  before the \<^verbatim>\<open>try\<close> (\<^verbatim>\<open>request.id\<close> of \<^verbatim>\<open>undefined\<close>) rejects the promise; an
  exception of the write rejects it after the entry was queued and before any timer
  is set.
\<close>

definition forwardToMCP :: "bridge \<Rightarrow> int \<Rightarrow> js_error option \<Rightarrow> jsval \<Rightarrow> bridge" where
  "forwardToMCP st now wr request =
     (let c = calls st;
          st0 = st\<lparr>calls := Suc c, promises := (promises st)(c := Pending)\<rparr>
      in case prop_id request of
           Inl e \<Rightarrow> st0\<lparr>promises := settle c (Rejected (Thrown e)) (promises st0)\<rparr>
         | Inr rid \<Rightarrow>
             (let requestId = (if truthy rid then rid else JNum now);
                  st1 = st0\<lparr>requestQueue := requestQueue st0 @ [(requestId, c)]\<rparr>
              in case writeStdin (mcpProcess st1) wr request of
                   Inl e \<Rightarrow> st1\<lparr>promises := settle c (Rejected (Thrown e)) (promises st1)\<rparr>
                 | Inr w \<Rightarrow>
                     st1\<lparr>mcpProcess := Some w,
                         timers := timers st1 @ [(timeout, ExpireCall requestId c)]\<rparr>))"

text \<open>
  The timeout callback of call \<open>c\<close>, lines 212-218: it looks the captured
  \<^verbatim>\<open>requestId\<close> up in the queue, removes the entry it finds and calls the
  \<^verbatim>\<open>reject\<close> of its own promise.
\<close>

definition expireCall :: "bridge \<Rightarrow> jsval \<Rightarrow> call \<Rightarrow> bridge" where
  "expireCall st requestId c =
     (case findIndex (matching requestId) (requestQueue st) of
        None \<Rightarrow> st
      | Some queueIndex \<Rightarrow>
          st\<lparr>requestQueue := spliceAt queueIndex (requestQueue st),
             promises := settle c (Rejected RequestTimeout) (promises st)\<rparr>)"

text \<open>
  The route \<^verbatim>\<open>POST /mcp\<close>, lines 54-72: a request is forwarded when the wrapper is
  ready and answered with status 503 otherwise.
\<close>

definition postMcp :: "bridge \<Rightarrow> int \<Rightarrow> js_error option \<Rightarrow> jsval \<Rightarrow> bridge" where
  "postMcp st now wr request =
     (if \<not> isReady st then st else forwardToMCP st now wr request)"

subsection \<open>The worker's life cycle\<close>

datatype exit = ProcessExit nat

text \<open>A value of \<^verbatim>\<open>process.env\<close> is truthy when it is set and not empty.\<close>

definition present :: "string option \<Rightarrow> bool" where
  "present v = (case v of None \<Rightarrow> False | Some s \<Rightarrow> s \<noteq> [])"

text \<open>The environment of the child, lines 133-139.\<close>

definition spawnEnv :: "(string \<rightharpoonup> string) \<Rightarrow> (string \<rightharpoonup> string)" where
  "spawnEnv penv =
     penv(''KIWI_BASE_URL'' := penv ''KIWI_BASE_URL'',
          ''KIWI_TOKEN'' := penv ''KIWI_TOKEN'',
          ''LOG_LEVEL'' \<mapsto> (case penv ''LOG_LEVEL'' of
                              None \<Rightarrow> ''INFO''
                            | Some l \<Rightarrow> (if l \<noteq> [] then l else ''INFO'')))"

text \<open>
  Lines 105-193, with \<open>penv\<close> for \<^verbatim>\<open>process.env\<close>; \<open>spawns\<close> says that
  \<^verbatim>\<open>spawn\<close> returns rather than throws. \<^verbatim>\<open>process.exit(1)\<close> ends the wrapper.
\<close>

definition initializeMCP :: "(string \<rightharpoonup> string) \<Rightarrow> bool \<Rightarrow> bridge \<Rightarrow> exit + bridge" where
  "initializeMCP penv spawns st =
     (let kiwiBaseUrl = penv ''KIWI_BASE_URL'';
          kiwiToken = penv ''KIWI_TOKEN''
      in if \<not> present kiwiBaseUrl \<or> \<not> present kiwiToken then Inl (ProcessExit 1)
         else if \<not> spawns then Inl (ProcessExit 1)
         else Inr (st\<lparr>mcpProcess := Some \<lparr>env = spawnEnv penv, stdin = []\<rparr>,
                      timers := timers st @ [(3000, BecomeReady)]\<rparr>))"

text \<open>The \<^verbatim>\<open>close\<close> handler, lines 165-170, and the \<^verbatim>\<open>error\<close> handler, lines 172-175.\<close>

definition onClose :: "bridge \<Rightarrow> bridge" where
  "onClose st = st\<lparr>isReady := False, timers := timers st @ [(5000, Restart)]\<rparr>"

definition onError :: "bridge \<Rightarrow> bridge" where
  "onError st = st\<lparr>isReady := False\<rparr>"

text \<open>The constructor: the fresh object, then \<^verbatim>\<open>initializeMCP\<close>.\<close>

definition construct :: "(string \<rightharpoonup> string) \<Rightarrow> bool \<Rightarrow> exit + bridge" where
  "construct penv spawns = initializeMCP penv spawns constructed"

text \<open>
  \<^verbatim>\<open>validateEnvironment\<close> of the worker (\<^verbatim>\<open>utils/validation\<close>), which the worker
  runs first in its constructor. \<open>validUrl\<close> says whether \<^verbatim>\<open>new URL\<close> accepts a
  string.
\<close>

datatype env_error =
    MissingVariables "string list"
  | InvalidBaseUrl string
  | EmptyToken

definition validateEnvironment ::
  "(string \<Rightarrow> bool) \<Rightarrow> (string \<rightharpoonup> string) \<Rightarrow> env_error + unit" where
  "validateEnvironment validUrl penv =
     (let required = [''KIWI_BASE_URL'', ''KIWI_TOKEN''];
          missing = filter (\<lambda>key. \<not> present (penv key)) required
      in if length missing > 0 then Inl (MissingVariables missing)
         else case (penv ''KIWI_BASE_URL'', penv ''KIWI_TOKEN'') of
                (Some baseUrl, Some token) \<Rightarrow>
                  (if \<not> validUrl baseUrl then Inl (InvalidBaseUrl baseUrl)
                   else if length (trim token) = 0 then Inl EmptyToken
                   else Inr ())
              | _ \<Rightarrow> Inl (MissingVariables missing))"

subsection \<open>Events\<close>

text \<open>
  What can happen to a running wrapper: a request on \<^verbatim>\<open>POST /mcp\<close>, a chunk on the
  worker's standard output, a pending timeout firing (the \<open>k\<close>-th of \<open>timers\<close>;
  timeouts are not ordered here, so every order in which Node can fire them is
  covered), the worker's \<^verbatim>\<open>close\<close> and \<^verbatim>\<open>error\<close> events. The handler of the
  worker's standard error only logs and is left out.
\<close>

datatype event =
    PostMcp int "js_error option" jsval
  | StdoutData buffer
  | TimerFires nat bool
  | Close
  | SpawnError

definition runCallback ::
  "(string \<rightharpoonup> string) \<Rightarrow> bool \<Rightarrow> bridge \<Rightarrow> callback \<Rightarrow> exit + bridge" where
  "runCallback penv spawns st cb =
     (case cb of
        ExpireCall requestId c \<Rightarrow> Inr (expireCall st requestId c)
      | Restart \<Rightarrow> initializeMCP penv spawns st
      | BecomeReady \<Rightarrow> Inr (st\<lparr>isReady := True\<rparr>))"

definition step ::
  "(string \<Rightarrow> jsval option) \<Rightarrow> (buffer \<Rightarrow> string) \<Rightarrow> (string \<rightharpoonup> string) \<Rightarrow>
   bridge \<Rightarrow> event \<Rightarrow> exit + bridge" where
  "step parse toString penv st ev =
     (case ev of
        PostMcp now wr request \<Rightarrow> Inr (postMcp st now wr request)
      | StdoutData data \<Rightarrow> Inr (onStdoutData parse toString st data)
      | TimerFires k spawns \<Rightarrow>
          (if k < length (timers st)
           then runCallback penv spawns (st\<lparr>timers := spliceAt k (timers st)\<rparr>)
                  (snd (timers st ! k))
           else Inr st)
      | Close \<Rightarrow> Inr (onClose st)
      | SpawnError \<Rightarrow> Inr (onError st))"

fun run ::
  "(string \<Rightarrow> jsval option) \<Rightarrow> (buffer \<Rightarrow> string) \<Rightarrow> (string \<rightharpoonup> string) \<Rightarrow>
   bridge \<Rightarrow> event list \<Rightarrow> exit + bridge" where
  "run parse toString penv st [] = Inr st"
| "run parse toString penv st (ev # evs) =
     (case step parse toString penv st ev of
        Inl x \<Rightarrow> Inl x
      | Inr st' \<Rightarrow> run parse toString penv st' evs)"

subsection \<open>Notions for stating the properties\<close>

text \<open>
  A line carries the identifier \<open>i\<close> when \<^verbatim>\<open>handleMCPResponse\<close> reads a response
  out of it whose \<^verbatim>\<open>id\<close> is \<^verbatim>\<open>===\<close> to \<open>i\<close>.
\<close>

definition carries :: "(string \<Rightarrow> jsval option) \<Rightarrow> jsval \<Rightarrow> string \<Rightarrow> bool" where
  "carries parse i line =
     (looksLikeJSON (trim line) \<and>
      (case parse (trim line) of
         None \<Rightarrow> False
       | Some response \<Rightarrow>
           (case prop_id response of
              Inl e \<Rightarrow> False
            | Inr requestId \<Rightarrow> strict_eq i requestId)))"

text \<open>The identifier \<open>i\<close> is in flight: some entry of the queue has it.\<close>

definition inFlight :: "bridge \<Rightarrow> jsval \<Rightarrow> bool" where
  "inFlight st i = list_ex (matching i) (requestQueue st)"

text \<open>
  Call \<open>c\<close> is queued under \<open>i\<close>, and no other entry of the queue has an
  identifier \<^verbatim>\<open>===\<close> to \<open>i\<close>.
\<close>

definition onlyEntry :: "bridge \<Rightarrow> jsval \<Rightarrow> call \<Rightarrow> bool" where
  "onlyEntry st i c = (filter (matching i) (requestQueue st) = [(i, c)])"

text \<open>The identifiers in flight are pairwise different under \<^verbatim>\<open>===\<close>.\<close>

definition distinctIds :: "bridge \<Rightarrow> bool" where
  "distinctIds st = distinct (map (\<lambda>req. ident (fst req)) (requestQueue st))"

text \<open>
  Every entry of the queue belongs to a promise of its own, created by an earlier
  \<^verbatim>\<open>forwardToMCP\<close>.
\<close>

definition wellFormed :: "bridge \<Rightarrow> bool" where
  "wellFormed st =
     (distinct (map snd (requestQueue st)) \<and>
      list_all (\<lambda>req. snd req < calls st) (requestQueue st))"




text \<open>
  The text the wrapper reads from the worker's standard output in a sequence of
  events: the texts of the chunks, one after the other.
\<close>

fun stdoutOf :: "(buffer \<Rightarrow> string) \<Rightarrow> event list \<Rightarrow> string" where
  "stdoutOf toString [] = []"
| "stdoutOf toString (StdoutData data # evs) = toString data @ stdoutOf toString evs"
| "stdoutOf toString (ev # evs) = stdoutOf toString evs"


text \<open>
  \<^verbatim>\<open>Buffer.prototype.toString\<close> on the chunks of the scenarios below, which hold
  ASCII bytes only: every byte is the code unit of its character.
\<close>

definition asciiText :: "buffer \<Rightarrow> string" where
  "asciiText data = data"

text \<open>
  A wrapper whose worker has been spawned and has become ready, with nothing in
  flight, in an environment that provides both required values.
\<close>

definition kiwiEnv :: "string \<rightharpoonup> string" where
  "kiwiEnv = [''KIWI_BASE_URL'' \<mapsto> ''http://localhost:8080'', ''KIWI_TOKEN'' \<mapsto> ''secret'']"

definition idle :: bridge where
  "idle = constructed\<lparr>mcpProcess := Some \<lparr>env = spawnEnv kiwiEnv, stdin = []\<rparr>, isReady := True\<rparr>"

subsection \<open>A scenario\<close>

text \<open>
  Two requests with the identifiers \<^verbatim>\<open>"A"\<close> and \<^verbatim>\<open>"B"\<close> are forwarded by an idle
  wrapper, one millisecond apart. \<open>scenarioParse\<close> stands for \<^verbatim>\<open>JSON.parse\<close> on the
  two lines the worker answers with, written \<^verbatim>\<open>{A}\<close> and \<^verbatim>\<open>{B}\<close> for short; every
  other line of the scenario is no JSON.
\<close>

definition responseA :: jsval where
  "responseA = JObj 10 [(''id'', JStr ''A''), (''result'', JStr ''ok'')]"

definition responseB :: jsval where
  "responseB = JObj 11 [(''id'', JStr ''B''), (''result'', JStr ''x'')]"

definition scenarioParse :: "string \<Rightarrow> jsval option" where
  "scenarioParse s =
     (if s = ''{A}'' then Some responseA
      else if s = ''{B}'' then Some responseB
      else None)"

definition twoCalls :: bridge where
  "twoCalls =
     forwardToMCP
       (forwardToMCP idle 1700000000000 None (JObj 20 [(''id'', JStr ''A'')]))
       1700000000001 None (JObj 21 [(''id'', JStr ''B'')])"

text \<open>
  A second scenario: two requests with the same identifier 7, one millisecond apart.
  \<open>duplicateParse\<close> stands for \<^verbatim>\<open>JSON.parse\<close> on the one line the worker answers
  with, written \<^verbatim>\<open>{7}\<close> for short.
\<close>

definition response7 :: jsval where
  "response7 = JObj 12 [(''id'', JNum 7), (''result'', JStr ''done'')]"

definition duplicateParse :: "string \<Rightarrow> jsval option" where
  "duplicateParse s = (if s = ''{7}'' then Some response7 else None)"

definition sameId :: bridge where
  "sameId =
     forwardToMCP
       (forwardToMCP idle 1700000000000 None (JObj 20 [(''id'', JNum 7)]))
       1700000000001 None (JObj 21 [(''id'', JNum 7)])"

text \<open>
  A third scenario: a request without an identifier, forwarded at the time
  1700000000000, and one millisecond later a request whose identifier is that very
  number. \<open>stampParse\<close> stands for \<^verbatim>\<open>JSON.parse\<close> on the worker's answer to the
  second request, written \<^verbatim>\<open>{T}\<close> for short.
\<close>

definition responseT :: jsval where
  "responseT = JObj 13 [(''id'', JNum 1700000000000), (''result'', JStr ''late'')]"

definition stampParse :: "string \<Rightarrow> jsval option" where
  "stampParse s = (if s = ''{T}'' then Some responseT else None)"

definition stampClash :: bridge where
  "stampClash =
     forwardToMCP
       (forwardToMCP idle 1700000000000 None (JObj 20 [(''method'', JStr ''tools/list'')]))
       1700000000001 None (JObj 21 [(''id'', JNum 1700000000000)])"






section \<open>Lists, strings and promises\<close>

lemma settle_other: "c' \<noteq> c \<Longrightarrow> settle c' out ps c = ps c"
  by (simp add: settle_def split: outcome.splits)

lemma settle_settled: "ps c \<noteq> Pending \<Longrightarrow> settle c' out ps c = ps c"
  by (cases "c' = c") (simp_all add: settle_def split: outcome.splits)

lemma settle_pending: "ps c = Pending \<Longrightarrow> settle c out ps c = out"
  by (simp add: settle_def)

lemma settle_noop: "ps c \<noteq> Pending \<Longrightarrow> settle c out ps = ps"
  by (simp add: settle_def split: outcome.splits)

lemma findIndex_None: "findIndex p xs = None \<longleftrightarrow> (\<forall>x \<in> set xs. \<not> p x)"
  by (induction xs) auto

lemma findIndex_Some:
  "findIndex p xs = Some k \<Longrightarrow> k < length xs \<and> p (xs ! k) \<and> (\<forall>j < k. \<not> p (xs ! j))"
proof (induction xs arbitrary: k)
  case Nil
  then show ?case by simp
next
  case (Cons x xs)
  show ?case
  proof (cases "p x")
    case True
    with Cons.prems show ?thesis by simp
  next
    case False
    with Cons.prems obtain k' where k': "findIndex p xs = Some k'" "k = Suc k'"
      by auto
    from Cons.IH [OF k'(1)] have IH: "k' < length xs" "p (xs ! k')" "\<forall>j < k'. \<not> p (xs ! j)"
      by auto
    have "\<not> p ((x # xs) ! j)" if "j < k" for j
    proof (cases j)
      case 0
      with False show ?thesis by simp
    next
      case (Suc j')
      with that k'(2) IH(3) show ?thesis by simp
    qed
    with IH k'(2) show ?thesis by simp
  qed
qed

lemma findIndex_unique:
  assumes "distinct (map f xs)" and "x \<in> set xs" and "\<And>y. p y \<longleftrightarrow> f y = f x"
  shows "\<exists>k. findIndex p xs = Some k \<and> k < length xs \<and> xs ! k = x"
  using assms(1,2)
proof (induction xs)
  case Nil
  then show ?case by simp
next
  case (Cons y ys)
  show ?case
  proof (cases "y = x")
    case True
    then show ?thesis by (simp add: assms(3))
  next
    case False
    with Cons.prems have "x \<in> set ys" "f y \<noteq> f x" by auto
    with Cons show ?thesis by (auto simp: assms(3))
  qed
qed

lemma splice_map: "map f (spliceAt k xs) = spliceAt k (map f xs)"
  by (simp add: spliceAt_def take_map drop_map)

lemma splice_set_subset: "set (spliceAt k xs) \<subseteq> set xs"
  by (auto simp: spliceAt_def dest: in_set_takeD in_set_dropD)

lemma splice_distinct: "distinct xs \<Longrightarrow> distinct (spliceAt k xs)"
  unfolding spliceAt_def
  by (simp add: set_take_disj_set_drop_if_distinct)

lemma splice_set_distinct:
  "distinct xs \<Longrightarrow> k < length xs \<Longrightarrow> set (spliceAt k xs) = set xs - {xs ! k}"
proof -
  assume d: "distinct xs" and k: "k < length xs"
  have xs: "xs = take k xs @ (xs ! k) # drop (Suc k) xs"
    using k by (simp add: id_take_nth_drop)
  have "distinct (take k xs @ (xs ! k) # drop (Suc k) xs)"
    using d xs by simp
  then have a: "xs ! k \<notin> set (take k xs)" "xs ! k \<notin> set (drop (Suc k) xs)"
    by auto
  have "set xs = set (take k xs @ (xs ! k) # drop (Suc k) xs)"
    using xs by simp
  then have b: "set xs = set (take k xs) \<union> {xs ! k} \<union> set (drop (Suc k) xs)"
    by (simp only: set_append list.simps(15)) blast
  have "set (spliceAt k xs) = set (take k xs) \<union> set (drop (Suc k) xs)"
    by (simp add: spliceAt_def)
  with a b show ?thesis by blast
qed

section \<open>Framing of the worker's output\<close>

lemma split_nonempty: "split d s \<noteq> []"
  by (induction s) auto

lemma split_append:
  "split d (a @ b) = butlast (split d a) @ split d (last (split d a) @ b)"
proof (induction a)
  case Nil
  show ?case by simp
next
  case (Cons c cs)
  show ?case
  proof (cases "c = d")
    case True
    with Cons show ?thesis by (simp add: split_nonempty)
  next
    case False
    obtain x xs where S: "split d cs = x # xs"
      using split_nonempty [of d cs] by (cases "split d cs") auto
    show ?thesis
    proof (cases xs)
      case Nil
      with S False Cons show ?thesis by simp
    next
      case (Cons y ys)
      with S False Cons.IH show ?thesis by simp
    qed
  qed
qed



lemma popOrEmpty_last: "ls \<noteq> [] \<Longrightarrow> popOrEmpty ls = last ls"
  by (cases ls rule: rev_cases) (auto simp: popOrEmpty_def)

lemma frame_eq:
  "frame toString buf data =
     (last (split newline (buf @ toString data)), butlast (split newline (buf @ toString data)))"
  by (simp add: frame_def Let_def popOrEmpty_last split_nonempty)




lemma handleMCPResponse_buffer:
  "handleMCPResponse parse (st\<lparr>responseBuffer := b\<rparr>) l =
   (handleMCPResponse parse st l)\<lparr>responseBuffer := b\<rparr>"
  by (simp add: handleMCPResponse_def tryResponse_def Let_def split: option.splits sum.splits)

lemma deliver_buffer:
  "foldl (handleMCPResponse parse) (st\<lparr>responseBuffer := b\<rparr>) ls =
   (foldl (handleMCPResponse parse) st ls)\<lparr>responseBuffer := b\<rparr>"
  by (induction ls arbitrary: st) (simp_all add: handleMCPResponse_buffer)

lemma onStdoutData_eq:
  "onStdoutData parse toString st data =
   (foldl (handleMCPResponse parse) st (delivered (snd (frame toString (responseBuffer st) data))))
     \<lparr>responseBuffer := fst (frame toString (responseBuffer st) data)\<rparr>"
  by (simp add: onStdoutData_def deliver_buffer split: prod.splits)








section \<open>The handlers, case by case\<close>

lemma carries_matching:
  "looksLikeJSON (trim l) \<Longrightarrow> parse (trim l) = Some r \<Longrightarrow> prop_id r = Inr rid \<Longrightarrow>
   carries parse i l = matching rid (i, c)"
  by (simp add: carries_def matching_def)

lemma handleMCPResponse_matched:
  assumes "looksLikeJSON (trim l)" and "parse (trim l) = Some r" and "prop_id r = Inr rid"
    and "findIndex (matching rid) (requestQueue st) = Some k"
  shows "handleMCPResponse parse st l =
           st\<lparr>requestQueue := spliceAt k (requestQueue st),
              promises := settle (snd (requestQueue st ! k)) (Fulfilled r) (promises st)\<rparr>"
  using assms
  by (auto simp: handleMCPResponse_def tryResponse_def looksLikeJSON_def Let_def)

lemma handleMCPResponse_not_JSON:
  "\<not> looksLikeJSON (trim l) \<Longrightarrow> handleMCPResponse parse st l = st"
  by (auto simp: handleMCPResponse_def tryResponse_def looksLikeJSON_def Let_def)

lemma handleMCPResponse_unparsed:
  "looksLikeJSON (trim l) \<Longrightarrow> parse (trim l) = None \<Longrightarrow>
   handleMCPResponse parse st l = st\<lparr>console := console st @ [ParseFailure (take 200 l)]\<rparr>"
  by (auto simp: handleMCPResponse_def tryResponse_def looksLikeJSON_def Let_def)

lemma handleMCPResponse_no_id:
  "looksLikeJSON (trim l) \<Longrightarrow> parse (trim l) = Some r \<Longrightarrow> prop_id r = Inl e \<Longrightarrow>
   handleMCPResponse parse st l = st\<lparr>console := console st @ [ParseFailure (take 200 l)]\<rparr>"
  by (auto simp: handleMCPResponse_def tryResponse_def looksLikeJSON_def Let_def)

lemma handleMCPResponse_unmatched:
  "looksLikeJSON (trim l) \<Longrightarrow> parse (trim l) = Some r \<Longrightarrow> prop_id r = Inr rid \<Longrightarrow>
   findIndex (matching rid) (requestQueue st) = None \<Longrightarrow>
   handleMCPResponse parse st l = st"
  by (auto simp: handleMCPResponse_def tryResponse_def looksLikeJSON_def Let_def)

lemma handleMCPResponse_cases:
  obtains
    (dropped) log where
      "handleMCPResponse parse st l = st\<lparr>console := console st @ log\<rparr>"
      "\<forall>req \<in> set (requestQueue st). \<not> carries parse (fst req) l"
  | (matched) r rid k where
      "looksLikeJSON (trim l)" "parse (trim l) = Some r" "prop_id r = Inr rid"
      "findIndex (matching rid) (requestQueue st) = Some k"
      "handleMCPResponse parse st l =
         st\<lparr>requestQueue := spliceAt k (requestQueue st),
            promises := settle (snd (requestQueue st ! k)) (Fulfilled r) (promises st)\<rparr>"
proof (cases "looksLikeJSON (trim l)")
  case False
  then have "handleMCPResponse parse st l = st\<lparr>console := console st @ []\<rparr>"
    by (simp add: handleMCPResponse_not_JSON)
  moreover have "\<forall>req \<in> set (requestQueue st). \<not> carries parse (fst req) l"
    using False by (simp add: carries_def)
  ultimately show ?thesis by (rule dropped)
next
  case json: True
  show ?thesis
  proof (cases "parse (trim l)")
    case None
    have "\<forall>req \<in> set (requestQueue st). \<not> carries parse (fst req) l"
      using None by (simp add: carries_def)
    moreover have "handleMCPResponse parse st l =
        st\<lparr>console := console st @ [ParseFailure (take 200 l)]\<rparr>"
      using json None by (rule handleMCPResponse_unparsed)
    ultimately show ?thesis using dropped by blast
  next
    case (Some r)
    show ?thesis
    proof (cases "prop_id r")
      case (Inl e)
      have "\<forall>req \<in> set (requestQueue st). \<not> carries parse (fst req) l"
        using Some Inl by (simp add: carries_def)
      moreover have "handleMCPResponse parse st l =
          st\<lparr>console := console st @ [ParseFailure (take 200 l)]\<rparr>"
        using json Some Inl by (rule handleMCPResponse_no_id)
      ultimately show ?thesis using dropped by blast
    next
      case (Inr rid)
      show ?thesis
      proof (cases "findIndex (matching rid) (requestQueue st)")
        case None
        then have "\<forall>req \<in> set (requestQueue st). \<not> carries parse (fst req) l"
          using json Some Inr by (auto simp: findIndex_None carries_def matching_def)
        moreover have "handleMCPResponse parse st l = st\<lparr>console := console st @ []\<rparr>"
          using json Some Inr None by (simp add: handleMCPResponse_unmatched)
        ultimately show ?thesis using dropped by blast
      next
        case (Some k)
        have "handleMCPResponse parse st l =
           st\<lparr>requestQueue := spliceAt k (requestQueue st),
              promises := settle (snd (requestQueue st ! k)) (Fulfilled r) (promises st)\<rparr>"
          using json \<open>parse (trim l) = Some r\<close> Inr Some by (rule handleMCPResponse_matched)
        with json \<open>parse (trim l) = Some r\<close> Inr Some show ?thesis by (rule matched)
      qed
    qed
  qed
qed

lemma expireCall_found:
  "findIndex (matching i) (requestQueue st) = Some k \<Longrightarrow>
   expireCall st i c =
     st\<lparr>requestQueue := spliceAt k (requestQueue st),
        promises := settle c (Rejected RequestTimeout) (promises st)\<rparr>"
  by (simp add: expireCall_def)

lemma expireCall_absent:
  "findIndex (matching i) (requestQueue st) = None \<Longrightarrow> expireCall st i c = st"
  by (simp add: expireCall_def)

lemma inFlight_iff: "inFlight st i \<longleftrightarrow> (\<exists>req \<in> set (requestQueue st). strict_eq (fst req) i)"
  by (simp add: inFlight_def list_ex_iff matching_def)

lemma not_inFlight_findIndex:
  "\<not> inFlight st i \<longleftrightarrow> findIndex (matching i) (requestQueue st) = None"
  by (simp add: inFlight_def list_ex_iff findIndex_None)

lemma sameId_fields:
  "requestQueue sameId = [(JNum 7, 0), (JNum 7, 1)]"
  "calls sameId = 2"
  "promises sameId 0 = Pending"
  "promises sameId 1 = Pending"
  "promises sameId (Suc 0) = Pending"
  "timers sameId = [(timeout, ExpireCall (JNum 7) 0), (timeout, ExpireCall (JNum 7) 1)]"
  by (simp_all add: sameId_def forwardToMCP_def idle_def constructed_def writeStdin_def Let_def)

lemma sameId_response:
  "requestQueue (handleMCPResponse duplicateParse sameId ''{7}'') = [(JNum 7, 1)]"
  "promises (handleMCPResponse duplicateParse sameId ''{7}'') 0 = Fulfilled response7"
  "promises (handleMCPResponse duplicateParse sameId ''{7}'') 1 = Pending"
  "promises (handleMCPResponse duplicateParse sameId ''{7}'') (Suc 0) = Pending"
proof -
  have f: "findIndex (matching (JNum 7)) (requestQueue sameId) = Some 0"
    by (simp add: sameId_fields matching_def strict_eq_def)
  have l: "looksLikeJSON (trim ''{7}'')" "duplicateParse (trim ''{7}'') = Some response7"
    "prop_id response7 = Inr (JNum 7)"
    by (simp_all add: looksLikeJSON_def startsWith_def trim_def isWhiteSpace_def
        duplicateParse_def response7_def)
  have eq: "handleMCPResponse duplicateParse sameId ''{7}'' =
      sameId\<lparr>requestQueue := spliceAt 0 (requestQueue sameId),
          promises := settle (snd (requestQueue sameId ! 0)) (Fulfilled response7)
                        (promises sameId)\<rparr>"
    using l f by (rule handleMCPResponse_matched)
  show "requestQueue (handleMCPResponse duplicateParse sameId ''{7}'') = [(JNum 7, 1)]"
    "promises (handleMCPResponse duplicateParse sameId ''{7}'') 0 = Fulfilled response7"
    "promises (handleMCPResponse duplicateParse sameId ''{7}'') 1 = Pending"
    "promises (handleMCPResponse duplicateParse sameId ''{7}'') (Suc 0) = Pending"
    unfolding eq by (simp_all add: sameId_fields spliceAt_def settle_def)
qed

lemma duplicateParse_line:
  "looksLikeJSON (trim ''{7}'')" "duplicateParse (trim ''{7}'') = Some response7"
  "prop_id response7 = Inr (JNum 7)"
  by (simp_all add: looksLikeJSON_def startsWith_def trim_def isWhiteSpace_def
      duplicateParse_def response7_def)

lemma filter_single:
  "filter p xs = [x] \<Longrightarrow>
   \<exists>k. findIndex p xs = Some k \<and> k < length xs \<and> xs ! k = x \<and> filter p (spliceAt k xs) = []"
proof (induction xs)
  case Nil
  then show ?case by simp
next
  case (Cons y ys)
  show ?case
  proof (cases "p y")
    case True
    with Cons.prems have "y = x" "filter p ys = []" by simp_all
    with True show ?thesis by (simp add: spliceAt_def)
  next
    case False
    with Cons.prems have "filter p ys = [x]" by simp
    from Cons.IH [OF this] obtain k where
      k: "findIndex p ys = Some k" "k < length ys" "ys ! k = x" "filter p (spliceAt k ys) = []"
      by blast
    have "spliceAt (Suc k) (y # ys) = y # spliceAt k ys" by (simp add: spliceAt_def)
    with k False show ?thesis by simp
  qed
qed

lemma matching_strict_eq: "strict_eq i rid \<Longrightarrow> matching rid = matching i"
  by (auto simp: matching_def strict_eq_def fun_eq_iff)

lemma onlyEntry_queued: "onlyEntry st i c \<Longrightarrow> (i, c) \<in> set (requestQueue st)"
proof -
  assume "onlyEntry st i c"
  then have "(i, c) \<in> set (filter (matching i) (requestQueue st))"
    by (simp add: onlyEntry_def)
  then show ?thesis by simp
qed

lemma onlyEntry_find:
  assumes "onlyEntry st i c" and "strict_eq i rid"
  shows "\<exists>k. findIndex (matching rid) (requestQueue st) = Some k \<and> k < length (requestQueue st)
            \<and> requestQueue st ! k = (i, c)
            \<and> \<not> inFlight (st\<lparr>requestQueue := spliceAt k (requestQueue st), promises := ps\<rparr>) i"
proof -
  from assms(1) have "filter (matching i) (requestQueue st) = [(i, c)]"
    by (simp add: onlyEntry_def)
  from filter_single [OF this] obtain k where
    k: "findIndex (matching i) (requestQueue st) = Some k" "k < length (requestQueue st)"
       "requestQueue st ! k = (i, c)" "filter (matching i) (spliceAt k (requestQueue st)) = []"
    by blast
  from k(4) have "\<not> list_ex (matching i) (spliceAt k (requestQueue st))"
    by (simp add: list_ex_iff filter_empty_conv)
  with k(1-3) show ?thesis
    by (simp add: matching_strict_eq [OF assms(2)] inFlight_def)
qed

lemma distinctIds_onlyEntry:
  assumes "distinctIds st" and "(i, c) \<in> set (requestQueue st)"
  shows "onlyEntry st i c"
proof -
  have "filter (\<lambda>y. f y = f x) xs = [x]" if "distinct (map f xs)" "x \<in> set xs"
    for f :: "jsval \<times> call \<Rightarrow> jsval" and x xs
    using that
  proof (induction xs)
    case Nil
    then show ?case by simp
  next
    case (Cons y ys)
    show ?case
    proof (cases "y = x")
      case True
      with Cons.prems(1) have "f x \<notin> f ` set ys" by simp
      then have "\<forall>z \<in> set ys. f z \<noteq> f x" by (metis imageI)
      with True show ?thesis by (simp add: filter_empty_conv)
    next
      case False
      with Cons.prems have "x \<in> set ys" "f y \<noteq> f x" by auto
      with Cons show ?thesis by simp
    qed
  qed
  from this [of "\<lambda>req. ident (fst req)" "requestQueue st" "(i, c)"] assms
  have "filter (\<lambda>y. ident (fst y) = ident i) (requestQueue st) = [(i, c)]"
    by (simp add: distinctIds_def)
  moreover have "matching i = (\<lambda>y. ident (fst y) = ident i)"
    by (simp add: matching_def strict_eq_def fun_eq_iff)
  ultimately show ?thesis by (simp add: onlyEntry_def)
qed

section \<open>Lines that answer no call\<close>

text \<open>
  Claim C6. A line that is no message envelope (it does not start with a brace or a
  bracket, or \<^verbatim>\<open>JSON.parse\<close> rejects it) and a well-formed response whose \<^verbatim>\<open>id\<close> is
  not in flight both leave the wrapper as it was but for at most one diagnostic line
  on the console: no call is settled, the queue and the buffer are untouched, and the
  exception of the parser, if any, ends in the \<^verbatim>\<open>catch\<close> block, so the handler returns
  and the \<^verbatim>\<open>data\<close> handler goes on with its next line.
\<close>

theorem unmatched_lines_are_dropped:
  assumes "(\<not> looksLikeJSON (trim l) \<or> parse (trim l) = None)
           \<or> (\<exists>r rid. parse (trim l) = Some r \<and> prop_id r = Inr rid \<and> \<not> inFlight st rid)"
  shows "\<exists>log. handleMCPResponse parse st l = st\<lparr>console := console st @ log\<rparr>
               \<and> (log = [] \<or> log = [ParseFailure (take 200 l)])"
proof -
  have same: "handleMCPResponse parse st l = st \<Longrightarrow> ?thesis"
    by (intro exI [of _ "[]"]) simp
  have logged: "handleMCPResponse parse st l =
      st\<lparr>console := console st @ [ParseFailure (take 200 l)]\<rparr> \<Longrightarrow> ?thesis"
    by (intro exI [of _ "[ParseFailure (take 200 l)]"]) simp
  show ?thesis
  proof (cases "looksLikeJSON (trim l)")
    case False
    then show ?thesis by (intro same) (rule handleMCPResponse_not_JSON)
  next
    case json: True
    show ?thesis
    proof (cases "parse (trim l)")
      case None
      with json show ?thesis by (intro logged) (rule handleMCPResponse_unparsed)
    next
      case (Some r)
      show ?thesis
      proof (cases "prop_id r")
        case (Inl e)
        with json Some show ?thesis by (intro logged) (rule handleMCPResponse_no_id)
      next
        case (Inr rid)
        with assms json Some have "\<not> inFlight st rid" by auto
        then have "findIndex (matching rid) (requestQueue st) = None"
          by (simp add: not_inFlight_findIndex)
        with json Some Inr show ?thesis by (intro same) (rule handleMCPResponse_unmatched)
      qed
    qed
  qed
qed

theorem unmatched_lines_are_dropped_witness:
  "\<not> looksLikeJSON (trim ''  worker started '')
   \<and> handleMCPResponse scenarioParse
        (forwardToMCP idle 1700000000000 None (JObj 20 [(''id'', JStr ''A'')]))
        ''  worker started ''
       = forwardToMCP idle 1700000000000 None (JObj 20 [(''id'', JStr ''A'')])
   \<and> scenarioParse (trim ''{B}'') = Some responseB
   \<and> prop_id responseB = Inr (JStr ''B'')
   \<and> \<not> inFlight (forwardToMCP idle 1700000000000 None (JObj 20 [(''id'', JStr ''A'')]))
         (JStr ''B'')
   \<and> handleMCPResponse scenarioParse
        (forwardToMCP idle 1700000000000 None (JObj 20 [(''id'', JStr ''A'')])) ''{B}''
       = forwardToMCP idle 1700000000000 None (JObj 20 [(''id'', JStr ''A'')])
   \<and> scenarioParse (trim ''{oops'') = None
   \<and> handleMCPResponse scenarioParse
        (forwardToMCP idle 1700000000000 None (JObj 20 [(''id'', JStr ''A'')])) ''{oops''
       = (forwardToMCP idle 1700000000000 None (JObj 20 [(''id'', JStr ''A'')]))
           \<lparr>console := [ParseFailure ''{oops'']\<rparr>"
proof -
  let ?st = "forwardToMCP idle 1700000000000 None (JObj 20 [(''id'', JStr ''A'')])"
  have q: "requestQueue ?st = [(JStr ''A'', 0)]" "console ?st = []"
    by (simp_all add: forwardToMCP_def idle_def constructed_def writeStdin_def Let_def)
  have a: "\<not> looksLikeJSON (trim ''  worker started '')"
    by (simp add: looksLikeJSON_def startsWith_def trim_def isWhiteSpace_def)
  have b: "\<not> inFlight ?st (JStr ''B'')"
    by (simp add: inFlight_def q matching_def strict_eq_def)
  have t: "trim ''{B}'' = ''{B}''" "trim ''{oops'' = ''{oops''"
    by (simp_all add: trim_def isWhiteSpace_def)
  have c: "looksLikeJSON (trim ''{B}'')" "looksLikeJSON (trim ''{oops'')"
    by (simp_all add: t looksLikeJSON_def startsWith_def)
  have p: "scenarioParse (trim ''{B}'') = Some responseB" "prop_id responseB = Inr (JStr ''B'')"
    "scenarioParse (trim ''{oops'') = None"
    by (simp_all add: t scenarioParse_def responseB_def)
  from unmatched_lines_are_dropped [of "''  worker started ''" scenarioParse ?st] a
  have 1: "handleMCPResponse scenarioParse ?st ''  worker started '' = ?st"
    by (auto simp: handleMCPResponse_not_JSON)
  from unmatched_lines_are_dropped [of "''{B}''" scenarioParse ?st] b p
  have "\<exists>log. handleMCPResponse scenarioParse ?st ''{B}'' = ?st\<lparr>console := console ?st @ log\<rparr>"
    by auto
  moreover have "console (handleMCPResponse scenarioParse ?st ''{B}'') = console ?st"
    using c(1) p b by (simp add: handleMCPResponse_unmatched not_inFlight_findIndex)
  ultimately have 2: "handleMCPResponse scenarioParse ?st ''{B}'' = ?st"
    by auto
  from unmatched_lines_are_dropped [of "''{oops''" scenarioParse ?st] p
  have "\<exists>log. handleMCPResponse scenarioParse ?st ''{oops'' = ?st\<lparr>console := console ?st @ log\<rparr>"
    by auto
  moreover have "console (handleMCPResponse scenarioParse ?st ''{oops'')
      = console ?st @ [ParseFailure ''{oops'']"
    using c(2) p(3) by (simp add: handleMCPResponse_unparsed)
  ultimately have 3: "handleMCPResponse scenarioParse ?st ''{oops''
      = ?st\<lparr>console := [ParseFailure ''{oops'']\<rparr>"
    using q(2) by auto
  from a b p 1 2 3 show ?thesis by simp
qed

section \<open>The worker's exit\<close>

text \<open>
  Claim C4, as the code has it. The \<^verbatim>\<open>close\<close> handler marks the wrapper not ready and
  schedules \<^verbatim>\<open>initializeMCP\<close> after a fixed 5000 ms; it settles no call and leaves
  the queue as it is. (No rejection for a crash exists: a promise is rejected with the
  timeout error or with a caught exception only.)
\<close>

theorem close_settles_no_call:
  "requestQueue (onClose st) = requestQueue st
   \<and> promises (onClose st) = promises st
   \<and> isReady (onClose st) = False
   \<and> timers (onClose st) = timers st @ [(5000, Restart)]
   \<and> step parse toString penv st Close = Inr (onClose st)"
  by (simp add: onClose_def step_def)

text \<open>
  The claim as stated fails: with one call in flight when the worker exits, the call
  is still pending and still queued afterwards.
\<close>

theorem close_counterexample:
  "requestQueue (onClose (forwardToMCP idle 1700000000000 None (JObj 20 [(''id'', JNum 7)])))
     = [(JNum 7, 0)]
   \<and> promises (onClose (forwardToMCP idle 1700000000000 None (JObj 20 [(''id'', JNum 7)]))) 0
     = Pending"
  by (simp add: onClose_def forwardToMCP_def idle_def constructed_def writeStdin_def Let_def)

section \<open>Registration\<close>

lemma forwardToMCP_written:
  assumes "prop_id request = Inr rid" and "mcpProcess st = Some w"
  shows "forwardToMCP st now None request =
     st\<lparr>calls := Suc (calls st),
        promises := (promises st)(calls st := Pending),
        requestQueue := requestQueue st @ [(if truthy rid then rid else JNum now, calls st)],
        mcpProcess := Some (w\<lparr>stdin := stdin w @ [request]\<rparr>),
        timers := timers st @
          [(timeout, ExpireCall (if truthy rid then rid else JNum now) (calls st))]\<rparr>"
  using assms by (simp add: forwardToMCP_def writeStdin_def Let_def)

text \<open>
  Claim C5, as the code has it. \<^verbatim>\<open>forwardToMCP\<close> does not look at the queue before it
  adds to it: whenever \<^verbatim>\<open>request.id\<close> can be read, the new entry is appended, whether
  or not its identifier is in flight already, and when the write succeeds the new call
  is pending. There is no duplicate-identifier error; a call fails at registration
  only by an exception of reading \<^verbatim>\<open>request.id\<close> or of the write.
\<close>

theorem registration_accepts_duplicates:
  assumes "prop_id request = Inr rid"
  shows "requestQueue (forwardToMCP st now wr request) =
           requestQueue st @ [(if truthy rid then rid else JNum now, calls st)]
         \<and> (mcpProcess st \<noteq> None \<and> wr = None \<longrightarrow>
              promises (forwardToMCP st now wr request) (calls st) = Pending)"
  using assms
  by (auto simp: forwardToMCP_def writeStdin_def Let_def split: sum.splits)

theorem registration_accepts_duplicates_witness:
  "prop_id (JObj 21 [(''id'', JNum 7)]) = Inr (JNum 7)
   \<and> inFlight (forwardToMCP idle 1700000000000 None (JObj 20 [(''id'', JNum 7)])) (JNum 7)
   \<and> mcpProcess (forwardToMCP idle 1700000000000 None (JObj 20 [(''id'', JNum 7)])) \<noteq> None
   \<and> requestQueue sameId = [(JNum 7, 0), (JNum 7, 1)]
   \<and> promises sameId 1 = Pending"
proof -
  let ?st1 = "forwardToMCP idle 1700000000000 None (JObj 20 [(''id'', JNum 7)])"
  have p: "prop_id (JObj 21 [(''id'', JNum 7)]) = Inr (JNum 7)"
    by simp
  have s: "requestQueue ?st1 = [(JNum 7, 0)]" "calls ?st1 = 1" "mcpProcess ?st1 \<noteq> None"
    by (simp_all add: forwardToMCP_def idle_def constructed_def writeStdin_def Let_def)
  have f: "inFlight ?st1 (JNum 7)"
    by (simp add: inFlight_def s matching_def strict_eq_def)
  from registration_accepts_duplicates [OF p, of ?st1 1700000000001 None] p s f
  show ?thesis by (simp add: sameId_def)
qed

text \<open>
  The claim as stated fails: a second call with the identifier 7 of a call in flight is
  registered like the first; it is pending, not rejected, and the queue holds two
  entries with that identifier.
\<close>

theorem registration_counterexample:
  "inFlight (forwardToMCP idle 1700000000000 None (JObj 20 [(''id'', JNum 7)])) (JNum 7)
   \<and> requestQueue
       (forwardToMCP (forwardToMCP idle 1700000000000 None (JObj 20 [(''id'', JNum 7)]))
          1700000000001 None (JObj 21 [(''id'', JNum 7)]))
       = [(JNum 7, 0), (JNum 7, 1)]
   \<and> promises
       (forwardToMCP (forwardToMCP idle 1700000000000 None (JObj 20 [(''id'', JNum 7)]))
          1700000000001 None (JObj 21 [(''id'', JNum 7)])) 1
       = Pending"
  by (simp add: inFlight_def matching_def strict_eq_def forwardToMCP_def idle_def
      constructed_def writeStdin_def Let_def)

section \<open>Start-up\<close>

lemma run_exit:
  "step parse toString penv st ev = Inl x \<Longrightarrow> run parse toString penv st (ev # evs) = Inl x"
  by simp

text \<open>
  Claim C8. A required value counts as provided when it is set and not empty, which is
  how line 112 tests it. If \<^verbatim>\<open>KIWI_BASE_URL\<close> or \<^verbatim>\<open>KIWI_TOKEN\<close> is not provided,
  \<^verbatim>\<open>initializeMCP\<close> ends the process with exit code 1, in the constructor and again
  when the restart timeout calls it; nothing runs after that, so nothing is retried.
  The worker's own \<^verbatim>\<open>validateEnvironment\<close> throws on the same values. If both are
  provided and \<^verbatim>\<open>spawn\<close> returns, the worker is spawned with exactly these two
  values in its environment and the readiness timeout is set.
\<close>

theorem missing_configuration_is_fatal:
  "(\<not> present (penv ''KIWI_BASE_URL'') \<or> \<not> present (penv ''KIWI_TOKEN'') \<longrightarrow>
      initializeMCP penv spawns st = Inl (ProcessExit 1)
      \<and> construct penv spawns = Inl (ProcessExit 1)
      \<and> (k < length (timers st) \<and> snd (timers st ! k) = Restart \<longrightarrow>
           run parse toString penv st (TimerFires k spawns # evs) = Inl (ProcessExit 1))
      \<and> validateEnvironment validUrl penv =
           Inl (MissingVariables
             (filter (\<lambda>key. \<not> present (penv key)) [''KIWI_BASE_URL'', ''KIWI_TOKEN''])))
   \<and> (present (penv ''KIWI_BASE_URL'') \<and> present (penv ''KIWI_TOKEN'') \<and> spawns \<longrightarrow>
      (\<exists>w. initializeMCP penv spawns st =
              Inr (st\<lparr>mcpProcess := Some w, timers := timers st @ [(3000, BecomeReady)]\<rparr>)
          \<and> env w ''KIWI_BASE_URL'' = penv ''KIWI_BASE_URL''
          \<and> env w ''KIWI_TOKEN'' = penv ''KIWI_TOKEN''
          \<and> stdin w = []))"
proof (intro conjI impI)
  assume a: "\<not> present (penv ''KIWI_BASE_URL'') \<or> \<not> present (penv ''KIWI_TOKEN'')"
  then show i: "initializeMCP penv spawns st = Inl (ProcessExit 1)"
    by (auto simp: initializeMCP_def)
  from a show "construct penv spawns = Inl (ProcessExit 1)"
    by (auto simp: construct_def initializeMCP_def)
  from a show "validateEnvironment validUrl penv =
      Inl (MissingVariables
        (filter (\<lambda>key. \<not> present (penv key)) [''KIWI_BASE_URL'', ''KIWI_TOKEN'']))"
    by (auto simp: validateEnvironment_def Let_def)
  assume "k < length (timers st) \<and> snd (timers st ! k) = Restart"
  moreover from a have "initializeMCP penv spawns (st\<lparr>timers := spliceAt k (timers st)\<rparr>)
      = Inl (ProcessExit 1)"
    by (auto simp: initializeMCP_def)
  ultimately have "step parse toString penv st (TimerFires k spawns) = Inl (ProcessExit 1)"
    by (simp add: step_def runCallback_def)
  then show "run parse toString penv st (TimerFires k spawns # evs) = Inl (ProcessExit 1)"
    by (rule run_exit)
next
  assume "present (penv ''KIWI_BASE_URL'') \<and> present (penv ''KIWI_TOKEN'') \<and> spawns"
  then show "\<exists>w. initializeMCP penv spawns st =
              Inr (st\<lparr>mcpProcess := Some w, timers := timers st @ [(3000, BecomeReady)]\<rparr>)
          \<and> env w ''KIWI_BASE_URL'' = penv ''KIWI_BASE_URL''
          \<and> env w ''KIWI_TOKEN'' = penv ''KIWI_TOKEN''
          \<and> stdin w = []"
    by (intro exI [of _ "\<lparr>env = spawnEnv penv, stdin = []\<rparr>"])
       (simp add: initializeMCP_def spawnEnv_def)
qed

theorem missing_configuration_is_fatal_witness:
  "\<not> present ([''KIWI_BASE_URL'' \<mapsto> ''http://localhost:8080''] ''KIWI_TOKEN'')
   \<and> construct [''KIWI_BASE_URL'' \<mapsto> ''http://localhost:8080''] True = Inl (ProcessExit 1)
   \<and> 0 < length (timers (onClose idle)) \<and> snd (timers (onClose idle) ! 0) = Restart
   \<and> run scenarioParse asciiText [''KIWI_BASE_URL'' \<mapsto> ''http://localhost:8080''] (onClose idle)
        [TimerFires 0 True, Close] = Inl (ProcessExit 1)
   \<and> validateEnvironment (\<lambda>u. True) [''KIWI_BASE_URL'' \<mapsto> ''http://localhost:8080'']
       = Inl (MissingVariables [''KIWI_TOKEN''])
   \<and> present (kiwiEnv ''KIWI_BASE_URL'') \<and> present (kiwiEnv ''KIWI_TOKEN'')
   \<and> (\<exists>w. initializeMCP kiwiEnv True constructed =
           Inr (constructed\<lparr>mcpProcess := Some w, timers := [(3000, BecomeReady)]\<rparr>)
         \<and> env w ''KIWI_BASE_URL'' = Some ''http://localhost:8080''
         \<and> env w ''KIWI_TOKEN'' = Some ''secret'')"
proof -
  let ?none = "[''KIWI_BASE_URL'' \<mapsto> ''http://localhost:8080'']"
  have a: "\<not> present (?none ''KIWI_TOKEN'')"
    by (simp add: present_def)
  have b: "present (kiwiEnv ''KIWI_BASE_URL'')" "present (kiwiEnv ''KIWI_TOKEN'')"
    "kiwiEnv ''KIWI_BASE_URL'' = Some ''http://localhost:8080''"
    "kiwiEnv ''KIWI_TOKEN'' = Some ''secret''"
    by (simp_all add: present_def kiwiEnv_def)
  have t: "timers constructed = []" "0 < length (timers (onClose idle))"
    "snd (timers (onClose idle) ! 0) = Restart"
    by (simp_all add: constructed_def onClose_def idle_def)
  have m: "filter (\<lambda>key. \<not> present (?none key)) [''KIWI_BASE_URL'', ''KIWI_TOKEN'']
      = [''KIWI_TOKEN'']"
    by (simp add: present_def)
  from missing_configuration_is_fatal [of ?none True "onClose idle" 0 scenarioParse asciiText "[Close]"
      "\<lambda>u. True"] a t m
  have 1: "construct ?none True = Inl (ProcessExit 1)"
    "run scenarioParse asciiText ?none (onClose idle) [TimerFires 0 True, Close] = Inl (ProcessExit 1)"
    "validateEnvironment (\<lambda>u. True) ?none = Inl (MissingVariables [''KIWI_TOKEN''])"
    by simp_all
  from missing_configuration_is_fatal [of kiwiEnv True constructed 0 scenarioParse asciiText "[]"
      "\<lambda>u. True"] b t(1)
  have 2: "\<exists>w. initializeMCP kiwiEnv True constructed =
           Inr (constructed\<lparr>mcpProcess := Some w, timers := [(3000, BecomeReady)]\<rparr>)
         \<and> env w ''KIWI_BASE_URL'' = Some ''http://localhost:8080''
         \<and> env w ''KIWI_TOKEN'' = Some ''secret''"
    by auto
  from a b(1,2) t(2,3) 1 2 show ?thesis by blast
qed

section \<open>Correlation\<close>

lemma wellFormed_distinct: "wellFormed st \<Longrightarrow> distinct (requestQueue st)"
  by (simp add: wellFormed_def distinct_map)

lemma wellFormed_own:
  "wellFormed st \<Longrightarrow> (i, c) \<in> set (requestQueue st) \<Longrightarrow> (j, c) \<in> set (requestQueue st) \<Longrightarrow> j = i"
proof -
  assume "wellFormed st" and i: "(i, c) \<in> set (requestQueue st)"
    and j: "(j, c) \<in> set (requestQueue st)"
  then have "inj_on snd (set (requestQueue st))"
    by (simp add: wellFormed_def distinct_map)
  from inj_onD [OF this _ j i] show "j = i" by simp
qed

lemma spliceAt_wellFormed:
  assumes "wellFormed st"
  shows "wellFormed (st\<lparr>requestQueue := spliceAt k (requestQueue st), promises := ps\<rparr>)"
proof -
  have "distinct (spliceAt k (map snd (requestQueue st)))"
    using assms by (simp add: wellFormed_def splice_distinct)
  moreover have "list_all (\<lambda>req. snd req < calls st) (spliceAt k (requestQueue st))"
    using assms splice_set_subset [of k "requestQueue st"]
    by (auto simp: wellFormed_def list_all_iff)
  ultimately show ?thesis by (simp add: wellFormed_def splice_map)
qed

lemma spliceAt_distinctIds:
  "distinctIds st \<Longrightarrow>
   distinctIds (st\<lparr>requestQueue := spliceAt k (requestQueue st), promises := ps\<rparr>)"
  by (simp add: distinctIds_def splice_map splice_distinct)

lemma handleMCPResponse_settled:
  "promises st c \<noteq> Pending \<Longrightarrow> promises (handleMCPResponse parse st l) c = promises st c"
  by (cases rule: handleMCPResponse_cases [of parse st l]) (simp_all add: settle_settled)

lemma deliver_settled:
  "promises st c \<noteq> Pending \<Longrightarrow>
   promises (foldl (handleMCPResponse parse) st ls) c = promises st c"
  by (induction ls arbitrary: st) (simp_all add: handleMCPResponse_settled)

lemma handleMCPResponse_invariants:
  "distinctIds st \<Longrightarrow> distinctIds (handleMCPResponse parse st l)"
  "wellFormed st \<Longrightarrow> wellFormed (handleMCPResponse parse st l)"
  "calls (handleMCPResponse parse st l) = calls st"
proof -
  show "distinctIds st \<Longrightarrow> distinctIds (handleMCPResponse parse st l)"
    by (cases rule: handleMCPResponse_cases [of parse st l])
       (simp_all add: spliceAt_distinctIds, simp add: distinctIds_def)
  show "wellFormed st \<Longrightarrow> wellFormed (handleMCPResponse parse st l)"
    by (cases rule: handleMCPResponse_cases [of parse st l])
       (simp_all add: spliceAt_wellFormed, simp add: wellFormed_def)
  show "calls (handleMCPResponse parse st l) = calls st"
    by (cases rule: handleMCPResponse_cases [of parse st l]) simp_all
qed

text \<open>A line that carries another identifier leaves the call as it is.\<close>

lemma handleMCPResponse_other:
  assumes wf: "wellFormed st" and reg: "(i, c) \<in> set (requestQueue st)"
    and other: "\<not> carries parse i l"
  shows "promises (handleMCPResponse parse st l) c = promises st c
         \<and> (i, c) \<in> set (requestQueue (handleMCPResponse parse st l))"
proof (cases rule: handleMCPResponse_cases [of parse st l])
  case (dropped log)
  with reg show ?thesis by simp
next
  case (matched r rid k)
  let ?q = "requestQueue st"
  from findIndex_Some [OF matched(4)] have k: "k < length ?q" "matching rid (?q ! k)"
    by auto
  obtain j c' where e: "?q ! k = (j, c')" by (cases "?q ! k")
  have "\<not> matching rid (i, c)"
    using other matched(1-3) carries_matching [of l parse r rid i c] by simp
  with k(2) e have ne: "(i, c) \<noteq> ?q ! k" by auto
  have "c' \<noteq> c"
  proof
    assume "c' = c"
    with e k(1) have "(j, c) \<in> set ?q" by (metis nth_mem)
    with wf reg have "j = i" by (rule wellFormed_own)
    with e \<open>c' = c\<close> ne show False by simp
  qed
  moreover have "(i, c) \<in> set (spliceAt k ?q)"
    using wellFormed_distinct [OF wf] k(1) reg ne by (simp add: splice_set_distinct)
  ultimately show ?thesis
    using matched(5) e by (simp add: settle_other)
qed

text \<open>A line that carries the identifier of a pending call fulfils that call.\<close>

lemma handleMCPResponse_own:
  assumes only: "onlyEntry st i c"
    and own: "carries parse i l"
  shows "\<exists>r. parse (trim l) = Some r
           \<and> promises (handleMCPResponse parse st l) = settle c (Fulfilled r) (promises st)
           \<and> \<not> inFlight (handleMCPResponse parse st l) i
           \<and> set (requestQueue (handleMCPResponse parse st l)) \<subseteq> set (requestQueue st)"
proof -
  from own obtain r rid where r: "looksLikeJSON (trim l)" "parse (trim l) = Some r"
      "prop_id r = Inr rid" "strict_eq i rid"
    by (auto simp: carries_def split: option.splits sum.splits)
  from onlyEntry_find [OF only r(4), of "settle c (Fulfilled r) (promises st)"] obtain k where
    k: "findIndex (matching rid) (requestQueue st) = Some k" "k < length (requestQueue st)"
       "requestQueue st ! k = (i, c)"
       "\<not> inFlight (st\<lparr>requestQueue := spliceAt k (requestQueue st),
                        promises := settle c (Fulfilled r) (promises st)\<rparr>) i"
    by blast
  have "handleMCPResponse parse st l =
      st\<lparr>requestQueue := spliceAt k (requestQueue st),
         promises := settle (snd (requestQueue st ! k)) (Fulfilled r) (promises st)\<rparr>"
    using r(1-3) k(1) by (rule handleMCPResponse_matched)
  then have eq: "handleMCPResponse parse st l =
      st\<lparr>requestQueue := spliceAt k (requestQueue st),
         promises := settle c (Fulfilled r) (promises st)\<rparr>"
    using k(3) by simp
  have "\<not> inFlight (handleMCPResponse parse st l) i"
    unfolding eq using k(4) .
  with r(2) eq splice_set_subset [of k "requestQueue st"] show ?thesis by simp
qed

lemma handleMCPResponse_queue_subset:
  "set (requestQueue (handleMCPResponse parse st l)) \<subseteq> set (requestQueue st)"
  using splice_set_subset
  by (cases rule: handleMCPResponse_cases [of parse st l]) (simp_all, fastforce)

lemma deliver_queue_subset:
  "set (requestQueue (foldl (handleMCPResponse parse) st ls)) \<subseteq> set (requestQueue st)"
proof (induction ls arbitrary: st)
  case Nil
  show ?case by simp
next
  case (Cons l ls)
  from Cons.IH [of "handleMCPResponse parse st l"]
    handleMCPResponse_queue_subset [of parse st l]
  show ?case by auto
qed

lemma deliver_correlates:
  assumes "distinctIds st" and "wellFormed st" and "(i, c) \<in> set (requestQueue st)"
    and "promises st c = Pending"
  shows "promises (foldl (handleMCPResponse parse) st lines) c =
           (case find (carries parse i) lines of
              None \<Rightarrow> Pending
            | Some l \<Rightarrow> (case parse (trim l) of None \<Rightarrow> Pending | Some r \<Rightarrow> Fulfilled r))
         \<and> ((i, c) \<in> set (requestQueue (foldl (handleMCPResponse parse) st lines))
              \<longleftrightarrow> find (carries parse i) lines = None)"
  using assms
proof (induction lines arbitrary: st)
  case Nil
  then show ?case by simp
next
  case (Cons l ls)
  let ?st' = "handleMCPResponse parse st l"
  show ?case
  proof (cases "carries parse i l")
    case True
    from handleMCPResponse_own [OF distinctIds_onlyEntry [OF Cons.prems(1,3)] True] obtain r where
      r: "parse (trim l) = Some r" "promises ?st' = settle c (Fulfilled r) (promises st)"
         "\<not> inFlight ?st' i" "set (requestQueue ?st') \<subseteq> set (requestQueue st)"
      by blast
    from r(2) Cons.prems(4) have f: "promises ?st' c = Fulfilled r"
      by (simp add: settle_pending)
    then have "promises (foldl (handleMCPResponse parse) ?st' ls) c = Fulfilled r"
      by (simp add: deliver_settled)
    moreover have "(i, c) \<notin> set (requestQueue (foldl (handleMCPResponse parse) ?st' ls))"
    proof
      assume "(i, c) \<in> set (requestQueue (foldl (handleMCPResponse parse) ?st' ls))"
      with deliver_queue_subset [of parse ?st' ls] have "(i, c) \<in> set (requestQueue ?st')"
        by blast
      then have "inFlight ?st' i"
        unfolding inFlight_iff strict_eq_def by (intro bexI [of _ "(i, c)"]) simp_all
      with r(3) show False by simp
    qed
    ultimately show ?thesis using True r(1) by simp
  next
    case False
    from handleMCPResponse_other [OF Cons.prems(2,3) False] Cons.prems(4)
    have "(i, c) \<in> set (requestQueue ?st')" "promises ?st' c = Pending"
      by simp_all
    with Cons.IH [of ?st'] Cons.prems(1,2) False show ?thesis
      by (simp add: handleMCPResponse_invariants)
  qed
qed

lemma twoCalls_fields:
  "requestQueue twoCalls = [(JStr ''A'', 0), (JStr ''B'', 1)]"
  "calls twoCalls = 2"
  "promises twoCalls 0 = Pending"
  "promises twoCalls 1 = Pending"
  "promises twoCalls (Suc 0) = Pending"
  "timers twoCalls =
     [(timeout, ExpireCall (JStr ''A'') 0), (timeout, ExpireCall (JStr ''B'') 1)]"
  by (simp_all add: twoCalls_def forwardToMCP_def idle_def constructed_def writeStdin_def Let_def)

lemma twoCalls_wellFormed: "distinctIds twoCalls" "wellFormed twoCalls"
  by (simp_all add: distinctIds_def wellFormed_def twoCalls_fields)

lemma scenario_carries:
  "carries scenarioParse (JStr ''A'') ''{A}''"
  "\<not> carries scenarioParse (JStr ''A'') ''{B}''"
  "carries scenarioParse (JStr ''B'') ''{B}''"
  "\<not> carries scenarioParse (JStr ''B'') ''{A}''"
  "trim ''{A}'' = ''{A}''"
  "trim ''{B}'' = ''{B}''"
  by (simp_all add: carries_def scenarioParse_def responseA_def responseB_def looksLikeJSON_def
      startsWith_def trim_def isWhiteSpace_def strict_eq_def)

section \<open>What every event preserves\<close>

lemma forwardToMCP_calls: "calls (forwardToMCP st now wr request) = Suc (calls st)"
  by (simp add: forwardToMCP_def Let_def split: sum.splits)

lemma forwardToMCP_promises_other:
  "c \<noteq> calls st \<Longrightarrow> promises (forwardToMCP st now wr request) c = promises st c"
  by (simp add: forwardToMCP_def Let_def settle_other split: sum.splits)

lemma forwardToMCP_queue_cases:
  "requestQueue (forwardToMCP st now wr request) = requestQueue st
   \<or> (\<exists>i. requestQueue (forwardToMCP st now wr request) = requestQueue st @ [(i, calls st)])"
  by (simp add: forwardToMCP_def Let_def split: sum.splits)

lemma forwardToMCP_wellFormed:
  assumes "wellFormed st"
  shows "wellFormed (forwardToMCP st now wr request)"
proof -
  have old: "distinct (map snd (requestQueue st))"
      "\<forall>req \<in> set (requestQueue st). snd req < calls st"
    using assms by (simp_all add: wellFormed_def list_all_iff)
  from forwardToMCP_queue_cases [of st now wr request] show ?thesis
  proof
    assume "requestQueue (forwardToMCP st now wr request) = requestQueue st"
    with old show ?thesis
      by (auto simp: wellFormed_def list_all_iff forwardToMCP_calls)
  next
    assume "\<exists>i. requestQueue (forwardToMCP st now wr request) = requestQueue st @ [(i, calls st)]"
    then obtain i where "requestQueue (forwardToMCP st now wr request) = requestQueue st @ [(i, calls st)]"
      by blast
    with old show ?thesis
      by (auto simp: wellFormed_def list_all_iff forwardToMCP_calls)
  qed
qed

lemma expireCall_calls: "calls (expireCall st i c) = calls st"
  by (simp add: expireCall_def split: option.splits)

lemma expireCall_wellFormed: "wellFormed st \<Longrightarrow> wellFormed (expireCall st i c)"
  by (simp add: expireCall_def spliceAt_wellFormed split: option.splits)

lemma expireCall_settled:
  "promises st c' \<noteq> Pending \<Longrightarrow> promises (expireCall st i c) c' = promises st c'"
  by (simp add: expireCall_def settle_settled split: option.splits)

lemma deliver_invariants:
  "wellFormed st \<Longrightarrow> wellFormed (foldl (handleMCPResponse parse) st ls)"
  "distinctIds st \<Longrightarrow> distinctIds (foldl (handleMCPResponse parse) st ls)"
  "calls (foldl (handleMCPResponse parse) st ls) = calls st"
  by (induction ls arbitrary: st) (simp_all add: handleMCPResponse_invariants)

lemma onStdoutData_fields:
  "requestQueue (onStdoutData parse toString st data) =
     requestQueue (foldl (handleMCPResponse parse) st (delivered (snd (frame toString (responseBuffer st) data))))"
  "promises (onStdoutData parse toString st data) =
     promises (foldl (handleMCPResponse parse) st (delivered (snd (frame toString (responseBuffer st) data))))"
  "calls (onStdoutData parse toString st data) = calls st"
  by (simp_all add: onStdoutData_eq deliver_invariants)

lemma onStdoutData_wellFormed: "wellFormed st \<Longrightarrow> wellFormed (onStdoutData parse toString st data)"
  using deliver_invariants(1) [of st parse "delivered (snd (frame toString (responseBuffer st) data))"]
  by (simp add: wellFormed_def onStdoutData_fields deliver_invariants(3))

lemma initializeMCP_fields:
  "initializeMCP penv spawns st = Inr st' \<Longrightarrow>
   requestQueue st' = requestQueue st \<and> promises st' = promises st \<and> calls st' = calls st
   \<and> responseBuffer st' = responseBuffer st"
  by (auto simp: initializeMCP_def Let_def split: if_splits)

text \<open>A promise that has been created and settled keeps its outcome under every event.\<close>

lemma step_settled:
  assumes "step parse toString penv st ev = Inr st'" and "c < calls st" and "promises st c \<noteq> Pending"
  shows "promises st' c = promises st c \<and> c < calls st'"
proof (cases ev)
  case (PostMcp now wr request)
  with assms show ?thesis
    by (auto simp: step_def postMcp_def forwardToMCP_promises_other forwardToMCP_calls)
next
  case (StdoutData data)
  with assms show ?thesis
    by (auto simp: step_def onStdoutData_fields deliver_settled)
next
  case (TimerFires k spawns)
  show ?thesis
  proof (cases "k < length (timers st)")
    case False
    with assms TimerFires show ?thesis by (simp add: step_def)
  next
    case True
    let ?st = "st\<lparr>timers := spliceAt k (timers st)\<rparr>"
    from assms(1) TimerFires True
    have r: "runCallback penv spawns ?st (snd (timers st ! k)) = Inr st'"
      by (simp add: step_def)
    show ?thesis
    proof (cases "snd (timers st ! k)")
      case (ExpireCall i c')
      with r have "st' = expireCall ?st i c'" by (simp add: runCallback_def)
      with assms(2,3) show ?thesis by (simp add: expireCall_settled expireCall_calls)
    next
      case Restart
      with r have "initializeMCP penv spawns ?st = Inr st'" by (simp add: runCallback_def)
      from initializeMCP_fields [OF this] assms(2,3) show ?thesis by simp
    next
      case BecomeReady
      with r assms(2,3) show ?thesis by (auto simp: runCallback_def)
    qed
  qed
next
  case Close
  with assms show ?thesis by (auto simp: step_def onClose_def)
next
  case SpawnError
  with assms show ?thesis by (auto simp: step_def onError_def)
qed

lemma run_settled:
  "run parse toString penv st evs = Inr st' \<Longrightarrow> c < calls st \<Longrightarrow> promises st c \<noteq> Pending \<Longrightarrow>
   promises st' c = promises st c"
proof (induction evs arbitrary: st)
  case Nil
  then show ?case by simp
next
  case (Cons ev evs)
  from Cons.prems(1) obtain st1 where s: "step parse toString penv st ev = Inr st1"
      "run parse toString penv st1 evs = Inr st'"
    by (auto split: sum.splits)
  from step_settled [OF s(1) Cons.prems(2,3)] Cons.IH [OF s(2)] Cons.prems(3)
  show ?case by simp
qed

lemma step_wellFormed:
  assumes "step parse toString penv st ev = Inr st'" and "wellFormed st"
  shows "wellFormed st'"
proof (cases ev)
  case (PostMcp now wr request)
  with assms show ?thesis
    by (auto simp: step_def postMcp_def forwardToMCP_wellFormed)
next
  case (StdoutData data)
  with assms show ?thesis by (auto simp: step_def onStdoutData_wellFormed)
next
  case (TimerFires k spawns)
  show ?thesis
  proof (cases "k < length (timers st)")
    case False
    with assms TimerFires show ?thesis by (simp add: step_def)
  next
    case True
    let ?st = "st\<lparr>timers := spliceAt k (timers st)\<rparr>"
    have wf: "wellFormed ?st" using assms(2) by (simp add: wellFormed_def)
    from assms(1) TimerFires True
    have r: "runCallback penv spawns ?st (snd (timers st ! k)) = Inr st'"
      by (simp add: step_def)
    show ?thesis
    proof (cases "snd (timers st ! k)")
      case (ExpireCall i c')
      with r have "st' = expireCall ?st i c'" by (simp add: runCallback_def)
      with wf show ?thesis by (simp add: expireCall_wellFormed)
    next
      case Restart
      with r have "initializeMCP penv spawns ?st = Inr st'" by (simp add: runCallback_def)
      from initializeMCP_fields [OF this] wf show ?thesis by (simp add: wellFormed_def)
    next
      case BecomeReady
      with r wf show ?thesis by (auto simp: runCallback_def wellFormed_def)
    qed
  qed
next
  case Close
  with assms show ?thesis by (auto simp: step_def onClose_def wellFormed_def)
next
  case SpawnError
  with assms show ?thesis by (auto simp: step_def onError_def wellFormed_def)
qed

text \<open>Every state the wrapper reaches from its construction is well formed.\<close>

lemma reachable_wellFormed:
  assumes "construct penv spawns = Inr st0" and "run parse toString penv st0 evs = Inr st"
  shows "wellFormed st"
proof -
  have "wellFormed constructed" by (simp add: wellFormed_def constructed_def)
  with initializeMCP_fields [of penv spawns constructed st0] assms(1)
  have "wellFormed st0" by (simp add: construct_def wellFormed_def)
  with assms(2) show ?thesis
  proof (induction evs arbitrary: st0)
    case Nil
    then show ?case by simp
  next
    case (Cons ev evs)
    from Cons.prems(1) obtain st1 where s: "step parse toString penv st0 ev = Inr st1"
        "run parse toString penv st1 evs = Inr st"
      by (auto split: sum.splits)
    from Cons.IH [OF s(2)] step_wellFormed [OF s(1) Cons.prems(2)] show ?case by simp
  qed
qed

text \<open>The idle wrapper is what construction and the readiness timeout lead to.\<close>

lemma idle_reached:
  "\<exists>st0. construct kiwiEnv True = Inr st0
         \<and> step parse toString kiwiEnv st0 (TimerFires 0 True) = Inr idle"
  by (simp add: construct_def initializeMCP_def present_def kiwiEnv_def step_def
      runCallback_def spliceAt_def idle_def constructed_def)

section \<open>One outcome for each call\<close>

lemma strict_eq_inFlight: "strict_eq i rid \<Longrightarrow> inFlight st rid = inFlight st i"
  by (simp add: inFlight_iff strict_eq_def)

text \<open>A response whose identifier is not in flight changes nothing.\<close>

lemma late_response_dropped:
  assumes "carries parse i l" and "\<not> inFlight st i"
  shows "handleMCPResponse parse st l = st"
proof -
  from assms(1) obtain r rid where r: "looksLikeJSON (trim l)" "parse (trim l) = Some r"
      "prop_id r = Inr rid" "strict_eq i rid"
    by (auto simp: carries_def split: option.splits sum.splits)
  from assms(2) r(4) have "\<not> inFlight st rid" by (simp add: strict_eq_inFlight)
  then have "findIndex (matching rid) (requestQueue st) = None"
    by (simp add: not_inFlight_findIndex)
  with r(1-3) show ?thesis by (rule handleMCPResponse_unmatched)
qed

lemma late_timer_ignored: "\<not> inFlight st i \<Longrightarrow> expireCall st i c = st"
  by (simp add: not_inFlight_findIndex expireCall_absent)

text \<open>The timeout of a call in flight removes its entry and rejects it.\<close>

lemma expireCall_own:
  assumes only: "onlyEntry st i c"
  shows "promises (expireCall st i c) = settle c (Rejected RequestTimeout) (promises st)
         \<and> \<not> inFlight (expireCall st i c) i
         \<and> calls (expireCall st i c) = calls st"
proof -
  have "strict_eq i i" by (simp add: strict_eq_def)
  from onlyEntry_find [OF only this, of "settle c (Rejected RequestTimeout) (promises st)"]
  obtain k where
    k: "findIndex (matching i) (requestQueue st) = Some k" "k < length (requestQueue st)"
       "requestQueue st ! k = (i, c)"
       "\<not> inFlight (st\<lparr>requestQueue := spliceAt k (requestQueue st),
                        promises := settle c (Rejected RequestTimeout) (promises st)\<rparr>) i"
    by blast
  have eq: "expireCall st i c =
     st\<lparr>requestQueue := spliceAt k (requestQueue st),
        promises := settle c (Rejected RequestTimeout) (promises st)\<rparr>"
    using k(1) by (rule expireCall_found)
  have "\<not> inFlight (expireCall st i c) i"
    unfolding eq using k(4) .
  with eq show ?thesis by simp
qed

text \<open>
  Claim C3, as the code has it. Let a pending call \<open>c\<close> be the only one in flight
  with its identifier \<open>i\<close>, and let it be settled by a line that carries \<open>i\<close> or by
  its timeout. These are the only two ways: the \<^verbatim>\<open>close\<close> handler settles nothing,
  which the last two lines of the statement say. Then the call has an outcome, its
  identifier has left the queue, and no later sequence of events changes the outcome.
  In every state in which no call is in flight under \<open>i\<close>, this one and any later
  one, a further response with that identifier and the call's own timeout both
  return the state unchanged.
\<close>

theorem settled_call_is_settled_once:
  assumes only: "onlyEntry st i c" and wf: "wellFormed st"
    and pend: "promises st c = Pending"
    and res: "(carries parse i l \<and> st' = handleMCPResponse parse st l) \<or> st' = expireCall st i c"
  shows "promises st' c \<noteq> Pending
         \<and> \<not> inFlight st' i
         \<and> (run parse toString penv st' evs = Inr st'' \<longrightarrow> promises st'' c = promises st' c)
         \<and> (\<not> inFlight later i \<longrightarrow>
              expireCall later i c = later
              \<and> (carries parse i l' \<longrightarrow> handleMCPResponse parse later l' = later))
         \<and> promises (onClose st) c = Pending
         \<and> requestQueue (onClose st) = requestQueue st"
proof -
  have c: "c < calls st"
    using wf onlyEntry_queued [OF only] by (auto simp: wellFormed_def list_all_iff)
  have s: "promises st' c \<noteq> Pending \<and> \<not> inFlight st' i \<and> calls st' = calls st"
    using res
  proof
    assume a: "carries parse i l \<and> st' = handleMCPResponse parse st l"
    with handleMCPResponse_own [OF only, of parse l] pend show ?thesis
      by (auto simp: settle_pending handleMCPResponse_invariants)
  next
    assume "st' = expireCall st i c"
    with expireCall_own [OF only] pend show ?thesis
      by (simp add: settle_pending)
  qed
  then have "run parse toString penv st' evs = Inr st'' \<longrightarrow> promises st'' c = promises st' c"
    using c run_settled [of parse toString penv st' evs st'' c] by simp
  with s pend show ?thesis
    by (simp add: late_response_dropped late_timer_ignored onClose_def)
qed

theorem settled_call_is_settled_once_witness:
  "onlyEntry twoCalls (JStr ''A'') 0 \<and> wellFormed twoCalls
   \<and> promises twoCalls 0 = Pending
   \<and> carries scenarioParse (JStr ''A'') ''{A}''
   \<and> \<not> inFlight (handleMCPResponse scenarioParse twoCalls ''{A}'') (JStr ''A'')
   \<and> handleMCPResponse scenarioParse (handleMCPResponse scenarioParse twoCalls ''{A}'') ''{A}''
       = handleMCPResponse scenarioParse twoCalls ''{A}''
   \<and> expireCall (handleMCPResponse scenarioParse twoCalls ''{A}'') (JStr ''A'') 0
       = handleMCPResponse scenarioParse twoCalls ''{A}''
   \<and> run scenarioParse asciiText kiwiEnv (handleMCPResponse scenarioParse twoCalls ''{A}'') [Close]
       = Inr (onClose (handleMCPResponse scenarioParse twoCalls ''{A}''))
   \<and> promises (onClose (handleMCPResponse scenarioParse twoCalls ''{A}'')) 0
       = promises (handleMCPResponse scenarioParse twoCalls ''{A}'') 0
   \<and> expireCall (expireCall twoCalls (JStr ''A'') 0) (JStr ''A'') 0
       = expireCall twoCalls (JStr ''A'') 0"
proof -
  have a: "promises twoCalls 0 = Pending"
    by (simp add: twoCalls_fields)
  have o: "onlyEntry twoCalls (JStr ''A'') 0"
    by (simp add: onlyEntry_def twoCalls_fields matching_def strict_eq_def)
  note wf = twoCalls_wellFormed(2)
  have r: "carries scenarioParse (JStr ''A'') ''{A}''"
    by (rule scenario_carries)
  have 1: "(carries scenarioParse (JStr ''A'') ''{A}'' \<and>
        handleMCPResponse scenarioParse twoCalls ''{A}'' = handleMCPResponse scenarioParse twoCalls ''{A}'')
      \<or> handleMCPResponse scenarioParse twoCalls ''{A}'' = expireCall twoCalls (JStr ''A'') 0"
    using r by simp
  have 2: "(carries scenarioParse (JStr ''A'') ''{A}'' \<and>
        expireCall twoCalls (JStr ''A'') 0 = handleMCPResponse scenarioParse twoCalls ''{A}'')
      \<or> expireCall twoCalls (JStr ''A'') 0 = expireCall twoCalls (JStr ''A'') 0"
    by simp
  have c: "run scenarioParse asciiText kiwiEnv (handleMCPResponse scenarioParse twoCalls ''{A}'') [Close]
       = Inr (onClose (handleMCPResponse scenarioParse twoCalls ''{A}''))"
    by (simp add: step_def)
  from settled_call_is_settled_once [OF o wf a 1, where l' = "''{A}''" and penv = kiwiEnv
      and toString = asciiText
      and later = "handleMCPResponse scenarioParse twoCalls ''{A}''"
      and evs = "[Close]" and st'' = "onClose (handleMCPResponse scenarioParse twoCalls ''{A}'')"]
    settled_call_is_settled_once [OF o wf a 2, where l' = "''{A}''"
      and later = "expireCall twoCalls (JStr ''A'') 0"]
    o wf a r c
  show ?thesis by simp
qed

text \<open>
  The claim as stated fails when two calls in flight have one identifier: after a
  response has fulfilled the first and removed its entry, a second response with the
  same identifier is not ignored; it fulfils the other call and empties the queue.
  And the worker's exit resolves nothing: the calls in flight stay pending.
\<close>

theorem duplicate_response_counterexample:
  "promises (handleMCPResponse duplicateParse sameId ''{7}'') 0 = Fulfilled response7
   \<and> requestQueue (handleMCPResponse duplicateParse sameId ''{7}'') = [(JNum 7, 1)]
   \<and> promises (handleMCPResponse duplicateParse sameId ''{7}'') 1 = Pending
   \<and> requestQueue
       (handleMCPResponse duplicateParse (handleMCPResponse duplicateParse sameId ''{7}'') ''{7}'')
       = []
   \<and> promises
       (handleMCPResponse duplicateParse (handleMCPResponse duplicateParse sameId ''{7}'') ''{7}'') 1
       = Fulfilled response7
   \<and> promises (onClose sameId) 0 = Pending
   \<and> requestQueue (onClose sameId) = [(JNum 7, 0), (JNum 7, 1)]"
proof -
  let ?s3 = "handleMCPResponse duplicateParse sameId ''{7}''"
  have f: "findIndex (matching (JNum 7)) (requestQueue ?s3) = Some 0"
    by (simp add: sameId_response matching_def strict_eq_def)
  have "handleMCPResponse duplicateParse ?s3 ''{7}'' =
      ?s3\<lparr>requestQueue := spliceAt 0 (requestQueue ?s3),
          promises := settle (snd (requestQueue ?s3 ! 0)) (Fulfilled response7) (promises ?s3)\<rparr>"
    using duplicateParse_line f by (rule handleMCPResponse_matched)
  then show ?thesis
    by (simp add: sameId_response sameId_fields spliceAt_def settle_def onClose_def)
qed

section \<open>Timeouts\<close>

text \<open>
  Claim C7, as the code has it. A call that has been written to the worker gets
  exactly one timeout, whose delay is the constant 120000 ms whatever the request is,
  set when the call is registered. When the timeout fires while the call is in flight
  (pending and queued, and the only one with its identifier), the call is rejected
  with the timeout error and its identifier leaves the queue; in that state, and in
  any later one in which no call is in flight under the identifier, a response that
  carries it returns the state unchanged. A call whose write throws is rejected at
  once and gets no timeout.
\<close>

theorem fixed_timeout_rejects_call_in_flight:
  "(prop_id request = Inr rid \<and> mcpProcess st = Some w \<longrightarrow>
      timers (forwardToMCP st now None request) =
        timers st @ [(120000, ExpireCall (if truthy rid then rid else JNum now) (calls st))]
      \<and> ((if truthy rid then rid else JNum now), calls st)
           \<in> set (requestQueue (forwardToMCP st now None request))
      \<and> promises (forwardToMCP st now None request) (calls st) = Pending)
   \<and> (onlyEntry st2 i c \<and> promises st2 c = Pending \<longrightarrow>
      promises (expireCall st2 i c) c = Rejected RequestTimeout
      \<and> \<not> inFlight (expireCall st2 i c) i
      \<and> (i, c) \<notin> set (requestQueue (expireCall st2 i c))
      \<and> (carries parse i l \<longrightarrow>
           handleMCPResponse parse (expireCall st2 i c) l = expireCall st2 i c))
   \<and> (\<not> inFlight st3 i \<and> carries parse i l \<longrightarrow> handleMCPResponse parse st3 l = st3)
   \<and> (k < length (timers st2) \<and> snd (timers st2 ! k) = ExpireCall i c \<longrightarrow>
      step parse toString penv st2 (TimerFires k spawns) =
        Inr (expireCall (st2\<lparr>timers := spliceAt k (timers st2)\<rparr>) i c))"
proof (intro conjI impI)
  assume a: "prop_id request = Inr rid \<and> mcpProcess st = Some w"
  then have eq: "forwardToMCP st now None request =
     st\<lparr>calls := Suc (calls st),
        promises := (promises st)(calls st := Pending),
        requestQueue := requestQueue st @ [(if truthy rid then rid else JNum now, calls st)],
        mcpProcess := Some (w\<lparr>stdin := stdin w @ [request]\<rparr>),
        timers := timers st @
          [(timeout, ExpireCall (if truthy rid then rid else JNum now) (calls st))]\<rparr>"
    by (simp add: forwardToMCP_written)
  show "timers (forwardToMCP st now None request) =
        timers st @ [(120000, ExpireCall (if truthy rid then rid else JNum now) (calls st))]"
    unfolding eq by (simp add: timeout_def)
  show "((if truthy rid then rid else JNum now), calls st)
           \<in> set (requestQueue (forwardToMCP st now None request))"
    unfolding eq by simp
  show "promises (forwardToMCP st now None request) (calls st) = Pending"
    unfolding eq by simp
next
  assume b: "onlyEntry st2 i c \<and> promises st2 c = Pending"
  then have own: "promises (expireCall st2 i c) = settle c (Rejected RequestTimeout) (promises st2)"
      "\<not> inFlight (expireCall st2 i c) i"
    using expireCall_own [of st2 i c] by simp_all
  from own(1) b show "promises (expireCall st2 i c) c = Rejected RequestTimeout"
    by (simp add: settle_pending)
  from own(2) show "\<not> inFlight (expireCall st2 i c) i" .
  from own(2) show "(i, c) \<notin> set (requestQueue (expireCall st2 i c))"
    by (auto simp: inFlight_iff strict_eq_def)
  assume "carries parse i l"
  then show "handleMCPResponse parse (expireCall st2 i c) l = expireCall st2 i c"
    using own(2) by (rule late_response_dropped)
next
  assume "\<not> inFlight st3 i \<and> carries parse i l"
  then show "handleMCPResponse parse st3 l = st3"
    using late_response_dropped [of parse i l st3] by simp
next
  assume "k < length (timers st2) \<and> snd (timers st2 ! k) = ExpireCall i c"
  then show "step parse toString penv st2 (TimerFires k spawns) =
        Inr (expireCall (st2\<lparr>timers := spliceAt k (timers st2)\<rparr>) i c)"
    by (simp add: step_def runCallback_def)
qed

theorem fixed_timeout_rejects_call_in_flight_witness:
  "prop_id (JObj 20 [(''id'', JStr ''A'')]) = Inr (JStr ''A'')
   \<and> mcpProcess idle = Some \<lparr>env = spawnEnv kiwiEnv, stdin = []\<rparr>
   \<and> timers (forwardToMCP idle 1700000000000 None (JObj 20 [(''id'', JStr ''A'')])) =
       [(120000, ExpireCall (JStr ''A'') 0)]
   \<and> onlyEntry twoCalls (JStr ''A'') 0
   \<and> promises twoCalls 0 = Pending
   \<and> promises (expireCall twoCalls (JStr ''A'') 0) 0 = Rejected RequestTimeout
   \<and> carries scenarioParse (JStr ''A'') ''{A}''
   \<and> handleMCPResponse scenarioParse (expireCall twoCalls (JStr ''A'') 0) ''{A}''
       = expireCall twoCalls (JStr ''A'') 0
   \<and> 0 < length (timers twoCalls) \<and> snd (timers twoCalls ! 0) = ExpireCall (JStr ''A'') 0
   \<and> step scenarioParse asciiText kiwiEnv twoCalls (TimerFires 0 True) =
       Inr (expireCall (twoCalls\<lparr>timers := spliceAt 0 (timers twoCalls)\<rparr>) (JStr ''A'') 0)"
proof -
  have p: "prop_id (JObj 20 [(''id'', JStr ''A'')]) = Inr (JStr ''A'')"
    "mcpProcess idle = Some \<lparr>env = spawnEnv kiwiEnv, stdin = []\<rparr>"
    "timers idle = []" "calls idle = 0"
    by (simp_all add: idle_def constructed_def)
  have a: "onlyEntry twoCalls (JStr ''A'') 0" "promises twoCalls 0 = Pending"
    "0 < length (timers twoCalls)" "snd (timers twoCalls ! 0) = ExpireCall (JStr ''A'') 0"
    by (simp_all add: twoCalls_fields onlyEntry_def matching_def strict_eq_def)
  have r: "carries scenarioParse (JStr ''A'') ''{A}''"
    by (rule scenario_carries)
  from fixed_timeout_rejects_call_in_flight [of "JObj 20 [(''id'', JStr ''A'')]" "JStr ''A''" idle
      "\<lparr>env = spawnEnv kiwiEnv, stdin = []\<rparr>" 1700000000000 twoCalls "JStr ''A''" 0 scenarioParse
      "''{A}''" "expireCall twoCalls (JStr ''A'') 0" 0 asciiText kiwiEnv True]
    p a r
  show ?thesis by simp
qed

text \<open>
  The claim as stated fails in two places. A call whose write throws is queued and
  rejected with the exception, and no timeout is set for it. And when two calls in
  flight have one identifier, a response with that identifier that arrives after the
  first call has timed out is not dropped: it fulfils the second call.
\<close>

theorem timeout_counterexample:
  "timers (forwardToMCP idle 1700000000000 (Some WriteError) (JObj 20 [(''id'', JNum 7)])) = []
   \<and> requestQueue (forwardToMCP idle 1700000000000 (Some WriteError) (JObj 20 [(''id'', JNum 7)]))
       = [(JNum 7, 0)]
   \<and> promises (forwardToMCP idle 1700000000000 (Some WriteError) (JObj 20 [(''id'', JNum 7)])) 0
       = Rejected (Thrown WriteError)
   \<and> promises (expireCall sameId (JNum 7) 0) 0 = Rejected RequestTimeout
   \<and> requestQueue (expireCall sameId (JNum 7) 0) = [(JNum 7, 1)]
   \<and> promises (handleMCPResponse duplicateParse (expireCall sameId (JNum 7) 0) ''{7}'') 1
       = Fulfilled response7"
proof -
  let ?s3 = "expireCall sameId (JNum 7) 0"
  have w: "timers (forwardToMCP idle 1700000000000 (Some WriteError) (JObj 20 [(''id'', JNum 7)])) = []"
    "requestQueue (forwardToMCP idle 1700000000000 (Some WriteError) (JObj 20 [(''id'', JNum 7)]))
       = [(JNum 7, 0)]"
    "promises (forwardToMCP idle 1700000000000 (Some WriteError) (JObj 20 [(''id'', JNum 7)])) 0
       = Rejected (Thrown WriteError)"
    by (simp_all add: forwardToMCP_def idle_def constructed_def writeStdin_def Let_def settle_def)
  have e: "promises ?s3 0 = Rejected RequestTimeout" "requestQueue ?s3 = [(JNum 7, 1)]"
    "promises ?s3 (Suc 0) = Pending"
    by (simp_all add: expireCall_def sameId_fields matching_def strict_eq_def spliceAt_def
        settle_def)
  have f: "findIndex (matching (JNum 7)) (requestQueue ?s3) = Some 0"
    by (simp add: e matching_def strict_eq_def)
  have "handleMCPResponse duplicateParse ?s3 ''{7}'' =
      ?s3\<lparr>requestQueue := spliceAt 0 (requestQueue ?s3),
          promises := settle (snd (requestQueue ?s3 ! 0)) (Fulfilled response7) (promises ?s3)\<rparr>"
    using duplicateParse_line f by (rule handleMCPResponse_matched)
  then have "promises (handleMCPResponse duplicateParse ?s3 ''{7}'') 1 = Fulfilled response7"
    by (simp add: e settle_def)
  with w e show ?thesis by simp
qed

section \<open>Requests without an identifier\<close>

lemma falsy_never_matches_timestamp:
  "now \<noteq> 0 \<Longrightarrow> \<not> truthy rid \<Longrightarrow> \<not> strict_eq (JNum now) rid"
  by (cases rid) (auto simp: strict_eq_def)

text \<open>
  While no line carries the identifier \<open>i\<close> under which call \<open>c\<close> is queued, no
  event gives \<open>c\<close> another outcome than the timeout error.
\<close>

lemma handleMCPResponse_only_timeout:
  assumes own: "\<forall>req \<in> set (requestQueue st). snd req = c \<longrightarrow> fst req = i"
    and out: "promises st c = Pending \<or> promises st c = Rejected RequestTimeout"
    and other: "\<not> carries parse i x"
  shows "(\<forall>req \<in> set (requestQueue (handleMCPResponse parse st x)). snd req = c \<longrightarrow> fst req = i)
         \<and> promises (handleMCPResponse parse st x) c = promises st c"
proof (cases rule: handleMCPResponse_cases [of parse st x])
  case (dropped log)
  with own show ?thesis by simp
next
  case (matched r rid k)
  let ?q = "requestQueue st"
  from findIndex_Some [OF matched(4)] have k: "k < length ?q" "matching rid (?q ! k)"
    by auto
  have "snd (?q ! k) \<noteq> c"
  proof
    assume "snd (?q ! k) = c"
    moreover have "?q ! k \<in> set ?q" using k(1) by simp
    ultimately have "fst (?q ! k) = i" using own by blast
    with k(2) have "strict_eq i rid" by (simp add: matching_def)
    with matched(1-3) have "carries parse i x" by (simp add: carries_def)
    with other show False by simp
  qed
  moreover have "set (spliceAt k ?q) \<subseteq> set ?q" by (rule splice_set_subset)
  ultimately show ?thesis
    using matched(5) own by (auto simp: settle_other)
qed

lemma deliver_only_timeout:
  assumes "\<forall>req \<in> set (requestQueue st). snd req = c \<longrightarrow> fst req = i"
    and "promises st c = Pending \<or> promises st c = Rejected RequestTimeout"
    and "list_all (\<lambda>x. \<not> carries parse i x) xs"
  shows "(\<forall>req \<in> set (requestQueue (foldl (handleMCPResponse parse) st xs)).
            snd req = c \<longrightarrow> fst req = i)
         \<and> promises (foldl (handleMCPResponse parse) st xs) c = promises st c"
  using assms
proof (induction xs arbitrary: st)
  case Nil
  then show ?case by simp
next
  case (Cons x xs)
  from Cons.prems(3) have x: "\<not> carries parse i x" and xs: "list_all (\<lambda>x. \<not> carries parse i x) xs"
    by simp_all
  from handleMCPResponse_only_timeout [OF Cons.prems(1,2) x]
  have h: "\<forall>req \<in> set (requestQueue (handleMCPResponse parse st x)). snd req = c \<longrightarrow> fst req = i"
      "promises (handleMCPResponse parse st x) c = promises st c"
    by simp_all
  from h(2) Cons.prems(2)
  have "promises (handleMCPResponse parse st x) c = Pending
        \<or> promises (handleMCPResponse parse st x) c = Rejected RequestTimeout"
    by simp
  from Cons.IH [OF h(1) this xs] h(2) show ?case by simp
qed

lemma delivered_not_carrying:
  "list_all (\<lambda>l. \<not> carries parse i (trim l)) ls \<Longrightarrow>
   list_all (\<lambda>x. \<not> carries parse i x) (delivered ls)"
  by (induction ls) (simp_all add: delivered_def)

lemma expireCall_queue_subset:
  "set (requestQueue (expireCall st i c)) \<subseteq> set (requestQueue st)"
  using splice_set_subset [of _ "requestQueue st"]
  by (auto simp: expireCall_def split: option.splits)

lemma expireCall_timeout_only:
  "promises st c = Pending \<or> promises st c = Rejected RequestTimeout \<Longrightarrow>
   promises (expireCall st i c') c = Pending
   \<or> promises (expireCall st i c') c = Rejected RequestTimeout"
  by (cases "c' = c")
     (auto simp: expireCall_def settle_other settle_def split: option.splits outcome.splits)

lemma step_responseBuffer:
  assumes "step parse toString penv st ev = Inr st'"
  shows "responseBuffer st' =
           (case ev of
              StdoutData data \<Rightarrow> last (split newline (responseBuffer st @ toString data))
            | _ \<Rightarrow> responseBuffer st)"
proof (cases ev)
  case (PostMcp now wr request)
  with assms show ?thesis
    by (auto simp: step_def postMcp_def forwardToMCP_def Let_def split: sum.splits)
next
  case (StdoutData data)
  with assms show ?thesis
    by (auto simp: step_def onStdoutData_eq frame_eq)
next
  case (TimerFires k spawns)
  with assms show ?thesis
    by (auto simp: step_def runCallback_def expireCall_def initializeMCP_def Let_def
        split: if_splits callback.splits option.splits)
next
  case Close
  with assms show ?thesis by (auto simp: step_def onClose_def)
next
  case SpawnError
  with assms show ?thesis by (auto simp: step_def onError_def)
qed


lemma step_only_timeout:
  assumes st: "step parse toString penv st ev = Inr st'"
    and lt: "c < calls st"
    and own: "\<forall>req \<in> set (requestQueue st). snd req = c \<longrightarrow> fst req = i"
    and out: "promises st c = Pending \<or> promises st c = Rejected RequestTimeout"
    and lines: "\<And>data. ev = StdoutData data \<Longrightarrow>
        list_all (\<lambda>l. \<not> carries parse i (trim l))
          (butlast (split newline (responseBuffer st @ toString data)))"
  shows "c < calls st'
         \<and> (\<forall>req \<in> set (requestQueue st'). snd req = c \<longrightarrow> fst req = i)
         \<and> (promises st' c = Pending \<or> promises st' c = Rejected RequestTimeout)"
proof (cases ev)
  case (PostMcp now wr request)
  show ?thesis
  proof (cases "isReady st")
    case False
    with st PostMcp lt own out show ?thesis by (auto simp: step_def postMcp_def)
  next
    case True
    with st PostMcp have eq: "st' = forwardToMCP st now wr request"
      by (auto simp: step_def postMcp_def)
    have "c \<noteq> calls st" using lt by simp
    then have "promises st' c = promises st c"
      unfolding eq by (rule forwardToMCP_promises_other)
    moreover have "\<forall>req \<in> set (requestQueue st'). snd req = c \<longrightarrow> fst req = i"
      using forwardToMCP_queue_cases [of st now wr request] own lt unfolding eq by auto
    moreover have "c < calls st'"
      unfolding eq using lt by (simp add: forwardToMCP_calls)
    ultimately show ?thesis using out by simp
  qed
next
  case (StdoutData data)
  with st have eq: "st' = onStdoutData parse toString st data" by (simp add: step_def)
  let ?xs = "delivered (snd (frame toString (responseBuffer st) data))"
  have "list_all (\<lambda>x. \<not> carries parse i x) ?xs"
    using lines [OF StdoutData] by (simp add: frame_eq delivered_not_carrying)
  from deliver_only_timeout [OF own out this] out lt show ?thesis
    unfolding eq by (simp add: onStdoutData_fields)
next
  case (TimerFires k spawns)
  show ?thesis
  proof (cases "k < length (timers st)")
    case False
    with st TimerFires lt own out show ?thesis by (simp add: step_def)
  next
    case True
    let ?st = "st\<lparr>timers := spliceAt k (timers st)\<rparr>"
    from st TimerFires True
    have r: "runCallback penv spawns ?st (snd (timers st ! k)) = Inr st'"
      by (simp add: step_def)
    show ?thesis
    proof (cases "snd (timers st ! k)")
      case (ExpireCall j c')
      with r have eq: "st' = expireCall ?st j c'" by (simp add: runCallback_def)
      have "promises st' c = Pending \<or> promises st' c = Rejected RequestTimeout"
        unfolding eq using out by (intro expireCall_timeout_only) simp
      moreover have "\<forall>req \<in> set (requestQueue st'). snd req = c \<longrightarrow> fst req = i"
        unfolding eq using expireCall_queue_subset [of ?st j c'] own by auto
      ultimately show ?thesis using lt unfolding eq by (simp add: expireCall_calls)
    next
      case Restart
      with r have "initializeMCP penv spawns ?st = Inr st'" by (simp add: runCallback_def)
      from initializeMCP_fields [OF this] lt own out show ?thesis by simp
    next
      case BecomeReady
      with r lt own out show ?thesis by (auto simp: runCallback_def)
    qed
  qed
next
  case Close
  with st lt own out show ?thesis by (auto simp: step_def onClose_def)
next
  case SpawnError
  with st lt own out show ?thesis by (auto simp: step_def onError_def)
qed

lemma lines_of_stream:
  "butlast (split newline (buf @ data @ rest)) =
   butlast (split newline (buf @ data))
   @ butlast (split newline (last (split newline (buf @ data)) @ rest))"
proof -
  have "split newline ((buf @ data) @ rest) =
        butlast (split newline (buf @ data))
        @ split newline (last (split newline (buf @ data)) @ rest)"
    by (rule split_append)
  then show ?thesis by (simp add: butlast_append split_nonempty)
qed

lemma run_only_timeout:
  assumes "run parse toString penv st evs = Inr st'"
    and "c < calls st"
    and "\<forall>req \<in> set (requestQueue st). snd req = c \<longrightarrow> fst req = i"
    and "promises st c = Pending \<or> promises st c = Rejected RequestTimeout"
    and "list_all (\<lambda>l. \<not> carries parse i (trim l))
           (butlast (split newline (responseBuffer st @ stdoutOf toString evs)))"
  shows "promises st' c = Pending \<or> promises st' c = Rejected RequestTimeout"
  using assms
proof (induction evs arbitrary: st)
  case Nil
  then show ?case by simp
next
  case (Cons ev evs)
  from Cons.prems(1) obtain st1 where s: "step parse toString penv st ev = Inr st1"
      "run parse toString penv st1 evs = Inr st'"
    by (auto split: sum.splits)
  have now: "list_all (\<lambda>l. \<not> carries parse i (trim l))
          (butlast (split newline (responseBuffer st @ toString data)))" if "ev = StdoutData data" for data
    using Cons.prems(5) that by (simp add: lines_of_stream)
  have later: "list_all (\<lambda>l. \<not> carries parse i (trim l))
          (butlast (split newline (responseBuffer st1 @ stdoutOf toString evs)))"
  proof (cases ev)
    case (StdoutData data)
    with Cons.prems(5) step_responseBuffer [OF s(1)] show ?thesis
      by (simp add: lines_of_stream)
  next
    case (PostMcp now wr request)
    with Cons.prems(5) step_responseBuffer [OF s(1)] show ?thesis by simp
  next
    case (TimerFires k spawns)
    with Cons.prems(5) step_responseBuffer [OF s(1)] show ?thesis by simp
  next
    case Close
    with Cons.prems(5) step_responseBuffer [OF s(1)] show ?thesis by simp
  next
    case SpawnError
    with Cons.prems(5) step_responseBuffer [OF s(1)] show ?thesis by simp
  qed
  from step_only_timeout [OF s(1) Cons.prems(2,3,4) now]
  have inv: "c < calls st1"
      "\<forall>req \<in> set (requestQueue st1). snd req = c \<longrightarrow> fst req = i"
      "promises st1 c = Pending \<or> promises st1 c = Rejected RequestTimeout"
    by simp_all
  from Cons.IH [OF s(2) inv later] show ?case .
qed


text \<open>
  Claim C9, as the code has it. Let \<^verbatim>\<open>request.id\<close> be falsy (missing, \<^verbatim>\<open>null\<close>,
  \<^verbatim>\<open>false\<close>, 0 or the empty string) and let the write succeed, at a time \<open>now\<close>
  other than 0. Then the call is queued under the number \<open>now\<close>, while the line
  written to the worker is the request as it came, without that number. No falsy
  identifier, the request's own among them, is \<^verbatim>\<open>===\<close> to \<open>now\<close>, so a response
  that echoes the request does not reach the call. Hence, along every sequence of
  events in which no complete line of the worker's output carries the number \<open>now\<close>,
  the call is pending or rejected with the timeout error, and nothing else.
\<close>

theorem request_without_id_only_times_out:
  assumes "prop_id request = Inr rid" and "\<not> truthy rid" and "mcpProcess st = Some w"
    and "wellFormed st" and "now \<noteq> 0"
  shows "requestQueue (forwardToMCP st now None request) =
           requestQueue st @ [(JNum now, calls st)]
         \<and> mcpProcess (forwardToMCP st now None request) = Some (w\<lparr>stdin := stdin w @ [request]\<rparr>)
         \<and> timers (forwardToMCP st now None request) =
             timers st @ [(timeout, ExpireCall (JNum now) (calls st))]
         \<and> \<not> strict_eq (JNum now) rid
         \<and> (\<not> truthy rid' \<longrightarrow> \<not> strict_eq (JNum now) rid')
         \<and> (run parse toString penv (forwardToMCP st now None request) evs = Inr st'
              \<and> list_all (\<lambda>l. \<not> carries parse (JNum now) (trim l))
                   (butlast (split newline (responseBuffer st @ stdoutOf toString evs)))
             \<longrightarrow> promises st' (calls st) = Pending
                 \<or> promises st' (calls st) = Rejected RequestTimeout)"
proof -
  let ?st1 = "forwardToMCP st now None request"
  have eq: "?st1 =
     st\<lparr>calls := Suc (calls st),
        promises := (promises st)(calls st := Pending),
        requestQueue := requestQueue st @ [(JNum now, calls st)],
        mcpProcess := Some (w\<lparr>stdin := stdin w @ [request]\<rparr>),
        timers := timers st @ [(timeout, ExpireCall (JNum now) (calls st))]\<rparr>"
    using forwardToMCP_written [OF assms(1,3), of now] assms(2) by simp
  have old: "\<forall>req \<in> set (requestQueue st). snd req < calls st"
    using assms(4) by (simp add: wellFormed_def list_all_iff)
  have own: "\<forall>req \<in> set (requestQueue ?st1). snd req = calls st \<longrightarrow> fst req = JNum now"
    unfolding eq using old by auto
  have lt: "calls st < calls ?st1" unfolding eq by simp
  have out: "promises ?st1 (calls st) = Pending \<or> promises ?st1 (calls st) = Rejected RequestTimeout"
    unfolding eq by simp
  have buf: "responseBuffer ?st1 = responseBuffer st" unfolding eq by simp
  have tr: "promises st' (calls st) = Pending \<or> promises st' (calls st) = Rejected RequestTimeout"
    if "run parse toString penv ?st1 evs = Inr st'"
      and "list_all (\<lambda>l. \<not> carries parse (JNum now) (trim l))
                   (butlast (split newline (responseBuffer st @ stdoutOf toString evs)))"
    using run_only_timeout [OF that(1) lt own out] that(2) buf by simp
  from eq tr falsy_never_matches_timestamp [OF assms(5)] assms(2) show ?thesis
    by simp
qed

lemma onStdoutData_timers: "timers (onStdoutData parse toString st data) = timers st"
proof -
  have h: "timers (handleMCPResponse parse s l) = timers s" for s l
    by (cases rule: handleMCPResponse_cases [of parse s l]) simp_all
  have "timers (foldl (handleMCPResponse parse) s ls) = timers s" for s ls
    by (induction ls arbitrary: s) (simp_all add: h)
  then show ?thesis by (simp add: onStdoutData_eq)
qed

theorem request_without_id_only_times_out_witness:
  "prop_id (JObj 20 [(''method'', JStr ''tools/list'')]) = Inr JUndefined
   \<and> \<not> truthy JUndefined
   \<and> mcpProcess idle = Some \<lparr>env = spawnEnv kiwiEnv, stdin = []\<rparr>
   \<and> wellFormed idle
   \<and> (1700000000000 :: int) \<noteq> 0
   \<and> requestQueue (forwardToMCP idle 1700000000000 None (JObj 20 [(''method'', JStr ''tools/list'')]))
       = [(JNum 1700000000000, 0)]
   \<and> mcpProcess (forwardToMCP idle 1700000000000 None (JObj 20 [(''method'', JStr ''tools/list'')]))
       = Some \<lparr>env = spawnEnv kiwiEnv, stdin = [JObj 20 [(''method'', JStr ''tools/list'')]]\<rparr>
   \<and> \<not> strict_eq (JNum 1700000000000) JUndefined
   \<and> run scenarioParse asciiText Map.empty
        (forwardToMCP idle 1700000000000 None (JObj 20 [(''method'', JStr ''tools/list'')]))
        [StdoutData (''{B}'' @ [newline]), TimerFires 0 True]
       = Inr (expireCall
               ((onStdoutData scenarioParse asciiText
                  (forwardToMCP idle 1700000000000 None (JObj 20 [(''method'', JStr ''tools/list'')]))
                  (''{B}'' @ [newline]))\<lparr>timers := []\<rparr>)
               (JNum 1700000000000) 0)
   \<and> list_all (\<lambda>l. \<not> carries scenarioParse (JNum 1700000000000) (trim l))
        (butlast (split newline
           (responseBuffer idle @ stdoutOf asciiText [StdoutData (''{B}'' @ [newline]), TimerFires 0 True])))
   \<and> (promises (expireCall
               ((onStdoutData scenarioParse asciiText
                  (forwardToMCP idle 1700000000000 None (JObj 20 [(''method'', JStr ''tools/list'')]))
                  (''{B}'' @ [newline]))\<lparr>timers := []\<rparr>)
               (JNum 1700000000000) 0) 0 = Pending
       \<or> promises (expireCall
               ((onStdoutData scenarioParse asciiText
                  (forwardToMCP idle 1700000000000 None (JObj 20 [(''method'', JStr ''tools/list'')]))
                  (''{B}'' @ [newline]))\<lparr>timers := []\<rparr>)
               (JNum 1700000000000) 0) 0 = Rejected RequestTimeout)"
proof -
  let ?req = "JObj 20 [(''method'', JStr ''tools/list'')]"
  let ?st1 = "forwardToMCP idle 1700000000000 None ?req"
  let ?evs = "[StdoutData (''{B}'' @ [newline]), TimerFires 0 True]"
  let ?st' = "expireCall ((onStdoutData scenarioParse asciiText ?st1 (''{B}'' @ [newline]))\<lparr>timers := []\<rparr>)
               (JNum 1700000000000) 0"
  have p: "prop_id ?req = Inr JUndefined"
    "\<not> truthy JUndefined"
    "mcpProcess idle = Some \<lparr>env = spawnEnv kiwiEnv, stdin = []\<rparr>"
    "wellFormed idle"
    "(1700000000000 :: int) \<noteq> 0"
    by (simp_all add: idle_def constructed_def wellFormed_def)
  have i: "requestQueue idle = []" "calls idle = 0" "timers idle = []" "responseBuffer idle = []"
    by (simp_all add: idle_def constructed_def)
  have t: "timers ?st1 = [(timeout, ExpireCall (JNum 1700000000000) 0)]"
    using forwardToMCP_written [OF p(1,3), of 1700000000000] i by simp
  have r: "run scenarioParse asciiText Map.empty ?st1 ?evs = Inr ?st'"
    by (simp add: step_def runCallback_def onStdoutData_timers t spliceAt_def)
  have l: "list_all (\<lambda>l. \<not> carries scenarioParse (JNum 1700000000000) (trim l))
        (butlast (split newline (responseBuffer idle @ stdoutOf asciiText ?evs)))"
    by (simp add: i newline_def carries_def scenarioParse_def responseB_def looksLikeJSON_def
        startsWith_def trim_def isWhiteSpace_def strict_eq_def asciiText_def)
  from request_without_id_only_times_out [OF p, where rid' = JUndefined and parse = scenarioParse
      and toString = asciiText and penv = Map.empty and evs = ?evs and st' = ?st'] p i r l
  show ?thesis by simp
qed

text \<open>
  The claim as stated fails in two places. When the write throws, nothing is written
  and the call ends with the exception of the write, not with the timeout error. And
  a response that carries the number the call is queued under reaches the call: here
  the answer to a second request, which uses that number as its identifier, fulfils
  the call without an identifier.
\<close>

theorem request_without_id_counterexample:
  "promises (forwardToMCP idle 1700000000000 (Some WriteError)
       (JObj 20 [(''method'', JStr ''tools/list'')])) 0 = Rejected (Thrown WriteError)
   \<and> mcpProcess (forwardToMCP idle 1700000000000 (Some WriteError)
       (JObj 20 [(''method'', JStr ''tools/list'')])) = mcpProcess idle
   \<and> requestQueue stampClash = [(JNum 1700000000000, 0), (JNum 1700000000000, 1)]
   \<and> promises stampClash 0 = Pending
   \<and> promises (handleMCPResponse stampParse stampClash ''{T}'') 0 = Fulfilled responseT"
proof -
  have w: "promises (forwardToMCP idle 1700000000000 (Some WriteError)
       (JObj 20 [(''method'', JStr ''tools/list'')])) 0 = Rejected (Thrown WriteError)"
    "mcpProcess (forwardToMCP idle 1700000000000 (Some WriteError)
       (JObj 20 [(''method'', JStr ''tools/list'')])) = mcpProcess idle"
    by (simp_all add: forwardToMCP_def idle_def constructed_def writeStdin_def Let_def settle_def)
  have q: "requestQueue stampClash = [(JNum 1700000000000, 0), (JNum 1700000000000, 1)]"
    "promises stampClash 0 = Pending"
    by (simp_all add: stampClash_def forwardToMCP_def idle_def constructed_def writeStdin_def
        Let_def)
  have f: "findIndex (matching (JNum 1700000000000)) (requestQueue stampClash) = Some 0"
    by (simp add: q matching_def strict_eq_def)
  have l: "looksLikeJSON (trim ''{T}'')" "stampParse (trim ''{T}'') = Some responseT"
    "prop_id responseT = Inr (JNum 1700000000000)"
    by (simp_all add: looksLikeJSON_def startsWith_def trim_def isWhiteSpace_def
        stampParse_def responseT_def)
  have "handleMCPResponse stampParse stampClash ''{T}'' =
      stampClash\<lparr>requestQueue := spliceAt 0 (requestQueue stampClash),
          promises := settle (snd (requestQueue stampClash ! 0)) (Fulfilled responseT)
                        (promises stampClash)\<rparr>"
    using l f by (rule handleMCPResponse_matched)
  then have "promises (handleMCPResponse stampParse stampClash ''{T}'') 0 = Fulfilled responseT"
    by (simp add: q settle_def)
  with w q show ?thesis by simp
qed

section \<open>Two calls with one identifier\<close>

text \<open>
  Claim C10, as the code has it. When the timeout of call \<open>c\<close> finds in the queue the
  entry of another call (one with the same identifier, \<open>c\<close>'s own entry being gone),
  it removes that entry and calls the \<^verbatim>\<open>reject\<close> of \<open>c\<close>, not the one stored in the
  entry. So no promise but that of \<open>c\<close> can change, and when \<open>c\<close> is settled already
  none changes at all: the other call loses its entry and stays as it was. If its
  identifier is then no longer in flight, a response with that identifier and the
  other call's own timeout return the state unchanged as well.
\<close>

theorem timeout_removes_other_call_unsettled:
  assumes "findIndex (matching i) (requestQueue st) = Some k"
    and "requestQueue st ! k = (j, c')" and "c' \<noteq> c"
  shows "requestQueue (expireCall st i c) = spliceAt k (requestQueue st)
         \<and> promises (expireCall st i c) c' = promises st c'
         \<and> (promises st c \<noteq> Pending \<longrightarrow> promises (expireCall st i c) = promises st)
         \<and> (wellFormed st \<longrightarrow> (j, c') \<notin> set (requestQueue (expireCall st i c)))
         \<and> (\<not> inFlight (expireCall st i c) i \<longrightarrow>
              expireCall (expireCall st i c) i c' = expireCall st i c
              \<and> (carries parse i l \<longrightarrow>
                   handleMCPResponse parse (expireCall st i c) l = expireCall st i c))"
proof -
  have eq: "expireCall st i c =
     st\<lparr>requestQueue := spliceAt k (requestQueue st),
        promises := settle c (Rejected RequestTimeout) (promises st)\<rparr>"
    using assms(1) by (rule expireCall_found)
  have k: "k < length (requestQueue st)"
    using findIndex_Some [OF assms(1)] by simp
  have gone: "(j, c') \<notin> set (requestQueue (expireCall st i c))" if "wellFormed st"
    using splice_set_distinct [OF wellFormed_distinct [OF that] k] assms(2)
    unfolding eq by simp
  from eq assms(3) gone show ?thesis
    by (simp add: settle_other settle_noop late_timer_ignored late_response_dropped)
qed

theorem timeout_removes_other_call_unsettled_witness:
  "findIndex (matching (JNum 7)) (requestQueue (handleMCPResponse duplicateParse sameId ''{7}''))
     = Some 0
   \<and> requestQueue (handleMCPResponse duplicateParse sameId ''{7}'') ! 0 = (JNum 7, 1)
   \<and> (1 :: nat) \<noteq> 0
   \<and> promises (handleMCPResponse duplicateParse sameId ''{7}'') 0 = Fulfilled response7
   \<and> wellFormed (handleMCPResponse duplicateParse sameId ''{7}'')
   \<and> requestQueue (expireCall (handleMCPResponse duplicateParse sameId ''{7}'') (JNum 7) 0) = []
   \<and> promises (expireCall (handleMCPResponse duplicateParse sameId ''{7}'') (JNum 7) 0) 1
       = Pending
   \<and> \<not> inFlight (expireCall (handleMCPResponse duplicateParse sameId ''{7}'') (JNum 7) 0) (JNum 7)
   \<and> carries duplicateParse (JNum 7) ''{7}''
   \<and> promises
       (handleMCPResponse duplicateParse
         (expireCall (handleMCPResponse duplicateParse sameId ''{7}'') (JNum 7) 0) ''{7}'') 1
       = Pending
   \<and> promises
       (expireCall (expireCall (handleMCPResponse duplicateParse sameId ''{7}'') (JNum 7) 0)
         (JNum 7) 1) 1
       = Pending"
proof -
  let ?s3 = "handleMCPResponse duplicateParse sameId ''{7}''"
  note s3 = sameId_response
  have f: "findIndex (matching (JNum 7)) (requestQueue ?s3) = Some 0"
    by (simp add: s3 matching_def strict_eq_def)
  have e: "requestQueue ?s3 ! 0 = (JNum 7, 1)"
    by (simp add: s3)
  have n: "(1 :: nat) \<noteq> 0" by simp
  have c: "carries duplicateParse (JNum 7) ''{7}''"
    by (simp add: carries_def duplicateParse_def response7_def looksLikeJSON_def startsWith_def
        trim_def isWhiteSpace_def strict_eq_def)
  have w: "wellFormed ?s3"
    by (rule handleMCPResponse_invariants)
       (simp add: wellFormed_def sameId_fields)
  note t = timeout_removes_other_call_unsettled [OF f e n, where parse = duplicateParse
      and l = "''{7}''"]
  from t s3 have q: "requestQueue (expireCall ?s3 (JNum 7) 0) = []"
    by (simp add: spliceAt_def)
  then have nf: "\<not> inFlight (expireCall ?s3 (JNum 7) 0) (JNum 7)"
    by (simp add: inFlight_def)
  from t f e s3 c q nf w show ?thesis by simp
qed

text \<open>
  The claim as stated fails: in the execution it describes (two calls with the
  identifier 7, a response that fulfils the earlier one, then the earlier call's
  timeout) the later call has lost its entry but is pending, not rejected.
\<close>

theorem duplicate_timeout_counterexample:
  "promises (handleMCPResponse duplicateParse sameId ''{7}'') 0 = Fulfilled response7
   \<and> requestQueue (handleMCPResponse duplicateParse sameId ''{7}'') = [(JNum 7, 1)]
   \<and> requestQueue (expireCall (handleMCPResponse duplicateParse sameId ''{7}'') (JNum 7) 0) = []
   \<and> promises (expireCall (handleMCPResponse duplicateParse sameId ''{7}'') (JNum 7) 0) 1
       = Pending
   \<and> promises (expireCall (handleMCPResponse duplicateParse sameId ''{7}'') (JNum 7) 0) 1
       \<noteq> Rejected RequestTimeout"
  by (simp add: expireCall_def sameId_response matching_def strict_eq_def spliceAt_def settle_def)

section \<open>Responses along a run\<close>






























section \<open>An example\<close>

text \<open>
  The whole path on an example: call \<^verbatim>\<open>"A"\<close> is in flight, the worker's output
  arrives in two chunks that cut the second line in two, and the second line answers
  a call that was never registered. The call is fulfilled with its response, the
  other line is dropped, and the buffer ends empty.
\<close>

lemma two_chunks_example:
  "\<exists>st'. run scenarioParse asciiText kiwiEnv
            (forwardToMCP idle 1700000000000 None (JObj 20 [(''id'', JStr ''A'')]))
            [StdoutData (''{A}'' @ [newline] @ ''{''), StdoutData (''B}'' @ [newline])] = Inr st'
         \<and> promises st' 0 = Fulfilled responseA
         \<and> requestQueue st' = []
         \<and> responseBuffer st' = []
         \<and> console st' = []"
  by (simp add: step_def onStdoutData_def frame_def popOrEmpty_def delivered_def newline_def
      trim_def isWhiteSpace_def handleMCPResponse_def tryResponse_def startsWith_def
      scenarioParse_def responseA_def responseB_def matching_def strict_eq_def spliceAt_def
      settle_def forwardToMCP_def writeStdin_def idle_def constructed_def Let_def
      looksLikeJSON_def asciiText_def)

end
